theory Spec2Isabelle
  imports Complex_Main
begin

section \<open>Errors\<close>

text \<open>
  \<open>out_of_range\<close> is the \<^verbatim>\<open>std::out_of_range\<close> exception thrown by
  \<^verbatim>\<open>InitializedArray::IsInitialized\<close>. \<open>null_dereference\<close> marks the places where the
  source dereferences a cell pointer without a null check
  (\<^verbatim>\<open>Find\<close>, \<^verbatim>\<open>Remove\<close>).
\<close>

datatype error = out_of_range | null_dereference

section \<open>The lazily initialised array (initialized-array.hpp)\<close>

text \<open>
  The three buffers are raw C++ arrays obtained from \<^verbatim>\<open>new T[length]\<close>; they are modelled
  as stores from index to content. A buffer that has just been allocated holds indeterminate
  content, so every allocation takes that content as a parameter (\<open>raw_memory\<close>), and
  nothing is assumed about it. The fields \<^verbatim>\<open>values\<close>, \<^verbatim>\<open>top\<close>,
  \<^verbatim>\<open>length\<close> and \<^verbatim>\<open>def\<close> carry the suffix \<open>_arr\<close>. The index type
  \<^verbatim>\<open>Number\<close> is \<^verbatim>\<open>long long int\<close> in the table; it is modelled as \<open>int\<close>, which
  agrees with the machine type as long as no intermediate result leaves the 64-bit range.
  (\<^verbatim>\<open>Get\<close> is declared \<^verbatim>\<open>const\<close> and calls \<^verbatim>\<open>IsInitialized\<close>, which is not;
  the model follows the bodies of the methods.)
\<close>

record 'v raw_memory =
  raw_values :: "int \<Rightarrow> 'v"
  raw_short_cuts :: "int \<Rightarrow> int"
  raw_init_indexes :: "int \<Rightarrow> int"

record 'v InitializedArray =
  values_arr :: "int \<Rightarrow> 'v"
  short_cuts :: "int \<Rightarrow> int"
  init_indexes :: "int \<Rightarrow> int"
  top_arr :: int
  length_arr :: int
  def_arr :: 'v

definition IsInitialized :: "'v InitializedArray \<Rightarrow> int \<Rightarrow> error + bool" where
  "IsInitialized this index =
     (if index \<ge> length_arr this \<or> index < 0 then Inl out_of_range
      else if top_arr this = 0 then Inr False
      else Inr (short_cuts this index < top_arr this \<and>
                short_cuts this index \<ge> 0 \<and>
                init_indexes this (short_cuts this index) = index))"

text \<open>The constructor \<^verbatim>\<open>InitializedArray(length, def)\<close>, on freshly allocated buffers.\<close>

definition new_InitializedArray :: "'v raw_memory \<Rightarrow> int \<Rightarrow> 'v \<Rightarrow> 'v InitializedArray" where
  "new_InitializedArray raw len def =
     \<lparr>values_arr = raw_values raw,
      short_cuts = raw_short_cuts raw,
      init_indexes = raw_init_indexes raw,
      top_arr = 0,
      length_arr = len,
      def_arr = def\<rparr>"

definition Get :: "'v InitializedArray \<Rightarrow> int \<Rightarrow> error + 'v" where
  "Get this index =
     (case IsInitialized this index of
        Inl e \<Rightarrow> Inl e
      | Inr initialized \<Rightarrow>
          if initialized then Inr (values_arr this index) else Inr (def_arr this))"

definition Set :: "'v InitializedArray \<Rightarrow> int \<Rightarrow> 'v \<Rightarrow> error + 'v InitializedArray" where
  "Set this index v =
     (case IsInitialized this index of
        Inl e \<Rightarrow> Inl e
      | Inr initialized \<Rightarrow>
          if \<not> initialized
          then Inr (this\<lparr>init_indexes := (init_indexes this)(top_arr this := index),
                         short_cuts := (short_cuts this)(index := top_arr this),
                         top_arr := top_arr this + 1,
                         values_arr := (values_arr this)(index := v)\<rparr>)
          else Inr (this\<lparr>values_arr := (values_arr this)(index := v)\<rparr>))"

definition Default :: "'v InitializedArray \<Rightarrow> 'v" where
  "Default this = def_arr this"

definition Length :: "'v InitializedArray \<Rightarrow> int" where
  "Length this = length_arr this"

text \<open>
  The copy constructor: three fresh buffers, then the loop
  \<^verbatim>\<open>for (i = 0; i < this->top; i++)\<close> that copies position \<open>i\<close> of each buffer.
\<close>

function copy_loop :: "int \<Rightarrow> 'v InitializedArray \<Rightarrow> 'v InitializedArray \<Rightarrow> 'v InitializedArray" where
  "copy_loop i this arr =
     (if i < top_arr this
      then copy_loop (i + 1)
             (this\<lparr>values_arr := (values_arr this)(i := values_arr arr i),
                   short_cuts := (short_cuts this)(i := short_cuts arr i),
                   init_indexes := (init_indexes this)(i := init_indexes arr i)\<rparr>)
             arr
      else this)"
  by pat_completeness auto
termination
  by (relation "measure (\<lambda>(i, this, arr). nat (top_arr this - i))") auto

declare copy_loop.simps [simp del]

definition copy_InitializedArray :: "'v raw_memory \<Rightarrow> 'v InitializedArray \<Rightarrow> 'v InitializedArray" where
  "copy_InitializedArray raw arr =
     copy_loop 0
       \<lparr>values_arr = raw_values raw,
        short_cuts = raw_short_cuts raw,
        init_indexes = raw_init_indexes raw,
        top_arr = top_arr arr,
        length_arr = length_arr arr,
        def_arr = def_arr arr\<rparr>
       arr"

text \<open>A sequence of \<^verbatim>\<open>Set\<close> calls, stopping at the first exception.\<close>

fun Set_all :: "'v InitializedArray \<Rightarrow> (int \<times> 'v) list \<Rightarrow> error + 'v InitializedArray" where
  "Set_all this [] = Inr this"
| "Set_all this ((index, v) # ws) =
     (case Set this index v of Inl e \<Rightarrow> Inl e | Inr this' \<Rightarrow> Set_all this' ws)"

text \<open>Memory whose cells all hold the same content, for concrete runs.\<close>

definition const_memory :: "'v \<Rightarrow> int \<Rightarrow> 'v raw_memory" where
  "const_memory v n = \<lparr>raw_values = (\<lambda>_. v), raw_short_cuts = (\<lambda>_. n), raw_init_indexes = (\<lambda>_. n)\<rparr>"

section \<open>The hash table (hash-table.hpp)\<close>

subsection \<open>Constants and arithmetic\<close>

definition INIT_SIZE :: int where "INIT_SIZE = 7"
definition CONST_C :: int where "CONST_C = 7"
definition MAX_RATIO :: rat where "MAX_RATIO = 3 / 4"
definition MIN_RATIO :: rat where "MIN_RATIO = 1 / 4"
definition EXPAND_SIZE :: int where "EXPAND_SIZE = 2"
definition REDUCE_SIZE :: rat where "REDUCE_SIZE = 1 / 2"

text \<open>
  The C++ operator \<^verbatim>\<open>%\<close> on integers truncates towards zero: the result takes the sign
  of the dividend. (A zero divisor is undefined behaviour in C++; the table never has size 0.)
  The ratios 0.75, 0.25 and 0.5 are exact binary fractions, so the \<^verbatim>\<open>double\<close>
  comparisons and \<^verbatim>\<open>floor\<close> of the source are modelled by exact rational arithmetic.
\<close>

definition cpp_mod :: "int \<Rightarrow> int \<Rightarrow> int" where
  "cpp_mod a b = sgn a * (\<bar>a\<bar> mod \<bar>b\<bar>)"

datatype DIRECTION = DOWN | UP

datatype CELL_STATE = EMPTY | FULL

text \<open>The integer value of an enumerator, used where the source compares a key with \<^verbatim>\<open>EMPTY\<close>.\<close>

fun CELL_STATE_int :: "CELL_STATE \<Rightarrow> int" where
  "CELL_STATE_int EMPTY = 0"
| "CELL_STATE_int FULL = 1"

subsection \<open>Cells\<close>

text \<open>
  The private members \<^verbatim>\<open>key\<close>, \<^verbatim>\<open>value\<close> and \<^verbatim>\<open>state\<close> of a cell are only read
  through their getters, whose names the record fields take. Keys are integers.
\<close>

record 'v HTableCell =
  GetKey :: int
  GetValue :: 'v
  GetCellState :: CELL_STATE

definition new_HTableCell :: "int \<Rightarrow> 'v \<Rightarrow> 'v HTableCell" where
  "new_HTableCell key value = \<lparr>GetKey = key, GetValue = value, GetCellState = FULL\<rparr>"

definition SetCellState :: "'v HTableCell \<Rightarrow> CELL_STATE \<Rightarrow> 'v HTableCell" where
  "SetCellState cell st = cell\<lparr>GetCellState := st\<rparr>"

subsection \<open>The table\<close>

text \<open>
  \<^verbatim>\<open>elements\<close> is an array of pointers to cells with default \<^verbatim>\<open>NULL\<close>. Every cell is
  allocated for exactly one slot and no pointer is shared between slots, so a slot holds
  \<open>None\<close> for \<^verbatim>\<open>NULL\<close> and \<open>Some cell\<close> for a pointer to \<open>cell\<close>. (The source
  instantiates the array as \<^verbatim>\<open>InitializedArray<Number, HTableCell*>\<close>, with the two
  template arguments exchanged; the model takes cell pointers as values and numbers as indices.)
  The member \<^verbatim>\<open>size\<close> is \<open>size_ht\<close>.
\<close>

record 'v HashTable =
  elements :: "'v HTableCell option InitializedArray"
  size_ht :: int
  total_elements :: int

text \<open>
  What a mutating method leaves behind: it returns, or an exception leaves it; in both cases
  the table is in the state carried here.
\<close>

datatype 's outcome = Returned 's | Threw error 's

fun state_of :: "'s outcome \<Rightarrow> 's" where
  "state_of (Returned s) = s"
| "state_of (Threw e s) = s"

subsection \<open>Primes\<close>

function IsPrime_loop :: "int \<Rightarrow> int \<Rightarrow> bool" where
  "IsPrime_loop number dv =
     (if dv * dv - 2 * dv + 1 \<le> number
      then (if cpp_mod number (dv - 1) = 0 \<or> cpp_mod number (dv + 1) = 0 then False
            else IsPrime_loop number (dv + 6))
      else True)"
  by pat_completeness auto

lemma int_le_square: "(x::int) \<le> x * x"
proof (cases "1 \<le> x")
  case True
  then have "x * 1 \<le> x * x" by (intro mult_left_mono) auto
  then show ?thesis by simp
next
  case False
  then have "x \<le> 0" by simp
  moreover have "0 \<le> x * x" by simp
  ultimately show ?thesis by linarith
qed

termination IsPrime_loop
proof (relation "measure (\<lambda>(number, dv). nat (number + 2 - dv))", goal_cases)
  case 1
  then show ?case by simp
next
  case (2 number dv)
  have "dv - 1 \<le> (dv - 1) * (dv - 1)" by (rule int_le_square)
  also have "\<dots> = dv * dv - 2 * dv + 1" by (simp add: algebra_simps)
  finally show ?case using 2(1) by simp
qed

declare IsPrime_loop.simps [simp del]

definition IsPrime :: "int \<Rightarrow> bool" where
  "IsPrime number =
     (if number = 1 \<or> cpp_mod number 2 = 0 \<or> cpp_mod number 3 = 0 then False
      else IsPrime_loop number 6)"

text \<open>Primality, as the specification of \<^verbatim>\<open>IsPrime\<close>: no divisor strictly between 1 and \<open>p\<close>.\<close>

definition is_prime :: "int \<Rightarrow> bool" where
  "is_prime p \<longleftrightarrow> 1 < p \<and> (\<forall>d \<in> {2..<p}. \<not> d dvd p)"

lemma cpp_mod_eq_0_iff: "cpp_mod a b = 0 \<longleftrightarrow> b dvd a"
proof -
  have "cpp_mod a b = 0 \<longleftrightarrow> \<bar>a\<bar> mod \<bar>b\<bar> = 0"
    by (auto simp: cpp_mod_def sgn_if)
  also have "\<dots> \<longleftrightarrow> \<bar>b\<bar> dvd \<bar>a\<bar>" by (simp add: dvd_eq_mod_eq_0)
  also have "\<dots> \<longleftrightarrow> b dvd a" by simp
  finally show ?thesis .
qed

lemma all_from_0_split: "(\<forall>j\<ge>(0::int). P j) \<longleftrightarrow> P 0 \<and> (\<forall>j\<ge>1. P j)"
proof -
  have "\<And>j::int. 0 \<le> j \<longleftrightarrow> j = 0 \<or> 1 \<le> j" by auto
  then show ?thesis by auto
qed

lemma all_from_1_shift: "(\<forall>j\<ge>(1::int). P j) \<longleftrightarrow> (\<forall>j\<ge>0. P (j + 1))"
proof
  assume a: "\<forall>j\<ge>1. P j"
  show "\<forall>j\<ge>0. P (j + 1)" using a by simp
next
  assume a: "\<forall>j\<ge>0. P (j + 1)"
  show "\<forall>j\<ge>1. P j"
  proof (intro allI impI)
    fix j :: int assume "1 \<le> j"
    then have "P ((j - 1) + 1)" using a by (metis diff_ge_0_iff_ge)
    then show "P j" by simp
  qed
qed

definition no_div_at :: "int \<Rightarrow> int \<Rightarrow> bool" where
  "no_div_at n e \<longleftrightarrow> ((e - 1) * (e - 1) \<le> n \<longrightarrow> \<not> (e - 1) dvd n \<and> \<not> (e + 1) dvd n)"

lemma IsPrime_loop_iff:
  "1 \<le> dv \<Longrightarrow> IsPrime_loop n dv \<longleftrightarrow> (\<forall>j\<ge>0. no_div_at n (dv + 6 * j))"
proof (induction n dv rule: IsPrime_loop.induct)
  case (1 n dv)
  have sq: "(dv - 1) * (dv - 1) = dv * dv - 2 * dv + 1" by (simp add: algebra_simps)
  have unroll: "(\<forall>j\<ge>0. no_div_at n (dv + 6 * j)) \<longleftrightarrow>
      no_div_at n dv \<and> (\<forall>j\<ge>0. no_div_at n (dv + 6 + 6 * j))"
  proof -
    have "(\<forall>j\<ge>0. no_div_at n (dv + 6 * j)) \<longleftrightarrow>
       no_div_at n (dv + 6 * 0) \<and> (\<forall>j\<ge>1. no_div_at n (dv + 6 * j))"
      by (rule all_from_0_split)
    also have "(\<forall>j\<ge>1. no_div_at n (dv + 6 * j)) \<longleftrightarrow> (\<forall>j\<ge>0. no_div_at n (dv + 6 * (j + 1)))"
      by (rule all_from_1_shift)
    finally show ?thesis by (simp add: algebra_simps)
  qed
  show ?case
  proof (cases "dv * dv - 2 * dv + 1 \<le> n")
    case True
    show ?thesis
    proof (cases "cpp_mod n (dv - 1) = 0 \<or> cpp_mod n (dv + 1) = 0")
      case d: True
      then have "\<not> no_div_at n dv" using True sq by (simp add: cpp_mod_eq_0_iff no_div_at_def)
      moreover have "\<not> IsPrime_loop n dv" using True d by (subst IsPrime_loop.simps) simp
      ultimately show ?thesis using unroll by blast
    next
      case d: False
      then have p0: "no_div_at n dv" by (simp add: cpp_mod_eq_0_iff no_div_at_def)
      have "IsPrime_loop n dv = IsPrime_loop n (dv + 6)"
        using True d by (subst IsPrime_loop.simps) simp
      also have "\<dots> \<longleftrightarrow> (\<forall>j\<ge>0. no_div_at n (dv + 6 + 6 * j))"
        using "1.IH"[OF True d] "1.prems" by simp
      finally show ?thesis using p0 unroll by blast
    qed
  next
    case False
    have "no_div_at n (dv + 6 * j)" if "0 \<le> j" for j
    proof -
      have "0 \<le> dv - 1" "dv - 1 \<le> dv + 6 * j - 1" using "1.prems" that by auto
      then have "(dv - 1) * (dv - 1) \<le> (dv + 6 * j - 1) * (dv + 6 * j - 1)"
        by (intro mult_mono) auto
      then show ?thesis using False sq by (simp add: no_div_at_def)
    qed
    moreover have "IsPrime_loop n dv" using False by (subst IsPrime_loop.simps) simp
    ultimately show ?thesis by blast
  qed
qed


lemma least_divisor:
  assumes "2 \<le> (n::int)"
  obtains d where "2 \<le> d" "d dvd n" "\<And>e. 2 \<le> e \<Longrightarrow> e dvd n \<Longrightarrow> d \<le> e"
proof -
  let ?S = "{d \<in> {2..n}. d dvd n}"
  have fin: "finite ?S" by (rule finite_subset[of _ "{2..n}"]) auto
  have ne: "?S \<noteq> {}" using assms by auto
  have m: "Min ?S \<in> ?S" using fin ne by (rule Min_in)
  have le: "Min ?S \<le> e" if "2 \<le> e" "e dvd n" for e
  proof -
    have "e \<le> n" using that assms by (intro zdvd_imp_le) auto
    then have "e \<in> ?S" using that by simp
    then show ?thesis using fin by (intro Min_le)
  qed
  show ?thesis using m le by (intro that[of "Min ?S"]) auto
qed

lemma least_divisor_square:
  assumes "2 \<le> (d::int)" "d dvd n" "d < n" "\<And>e. 2 \<le> e \<Longrightarrow> e dvd n \<Longrightarrow> d \<le> e"
  shows "d * d \<le> n"
proof -
  from assms(2) obtain q where q: "n = d * q" by (auto simp: dvd_def)
  have "1 < q"
  proof (rule ccontr)
    assume "\<not> 1 < q"
    then have "q \<le> 1" by simp
    then have "d * q \<le> d * 1" using assms(1) by (intro mult_left_mono) auto
    then show False using q assms(3) by simp
  qed
  then have "2 \<le> q" by simp
  moreover have "q dvd n" using q by simp
  ultimately have "d \<le> q" by (rule assms(4))
  then have "d * d \<le> d * q" using assms(1) by (intro mult_left_mono) auto
  then show ?thesis using q by simp
qed

lemma IsPrime_unfold:
  "IsPrime n \<longleftrightarrow> n \<noteq> 1 \<and> \<not> 2 dvd n \<and> \<not> 3 dvd n \<and> (\<forall>j\<ge>0. no_div_at n (6 + 6 * j))"
proof -
  have "IsPrime_loop n 6 \<longleftrightarrow> (\<forall>j\<ge>0. no_div_at n (6 + 6 * j))"
    by (rule IsPrime_loop_iff) simp
  then show ?thesis
    by (simp add: IsPrime_def cpp_mod_eq_0_iff del: IsPrime_loop.simps)
qed

lemma IsPrime_sound:
  assumes "IsPrime n" "2 \<le> n"
  shows "is_prime n"
proof -
  from assms(1) have n2: "\<not> 2 dvd n" and n3: "\<not> 3 dvd n"
    and loop: "\<And>j. 0 \<le> j \<Longrightarrow> no_div_at n (6 + 6 * j)"
    by (simp_all add: IsPrime_unfold)
  have "\<not> d0 dvd n" if d0: "d0 \<in> {2..<n}" for d0
  proof
    assume dv: "d0 dvd n"
    obtain d where d: "2 \<le> d" "d dvd n" "\<And>e. 2 \<le> e \<Longrightarrow> e dvd n \<Longrightarrow> d \<le> e"
      using least_divisor[OF assms(2)] by blast
    have "d \<le> d0" using d(3)[of d0] d0 dv by simp
    then have dn: "d < n" using d0 by simp
    have sq: "d * d \<le> n" by (rule least_divisor_square[OF d(1,2) dn d(3)])
    have "\<not> 2 dvd d" using n2 d(2) dvd_trans by blast
    moreover have "\<not> 3 dvd d" using n3 d(2) dvd_trans by blast
    ultimately have "d mod 6 = 5 \<or> d mod 6 = 1" by presburger
    then show False
    proof
      assume 1: "d mod 6 = 5"
      define j where "j = (d - 5) div 6"
      have "6 * ((d - 5) div 6) = d - 5" using 1 by presburger
      moreover have "0 \<le> (d - 5) div 6" using 1 d(1) by presburger
      ultimately have j: "0 \<le> j" "6 + 6 * j = d + 1" by (simp_all add: j_def)
      from loop[OF j(1)] sq d(2) show False by (simp add: j(2) no_div_at_def)
    next
      assume 2: "d mod 6 = 1"
      define j where "j = (d - 7) div 6"
      have "6 * ((d - 7) div 6) = d - 7" using 2 by presburger
      moreover have "0 \<le> (d - 7) div 6" using 2 d(1) by presburger
      ultimately have j: "0 \<le> j" "6 + 6 * j = d - 1" by (simp_all add: j_def)
      have "(d - 2) * (d - 2) \<le> d * d" using d(1) by (intro mult_mono) auto
      then have "(d - 1 - 1) * (d - 1 - 1) \<le> n" using sq by simp
      with loop[OF j(1)] d(2) show False by (simp add: j(2) no_div_at_def)
    qed
  qed
  then show ?thesis using assms(2) by (simp add: is_prime_def)
qed

lemma IsPrime_complete:
  assumes "is_prime n" "5 \<le> n"
  shows "IsPrime n"
proof -
  from assms have nd: "\<And>d. 2 \<le> d \<Longrightarrow> d < n \<Longrightarrow> \<not> d dvd n" by (simp add: is_prime_def)
  have "no_div_at n (6 + 6 * j)" if "0 \<le> j" for j
    unfolding no_div_at_def
  proof
    define x where "x = 6 + 6 * j - 1"
    assume "(6 + 6 * j - 1) * (6 + 6 * j - 1) \<le> n"
    then have sq: "x * x \<le> n" by (simp only: x_def)
    have x5: "5 \<le> x" using that by (simp add: x_def)
    then have "5 * x \<le> x * x" by (intro mult_right_mono) auto
    then have "x + 2 < n" using sq x5 by linarith
    then have "\<not> x dvd n" "\<not> (x + 2) dvd n" using x5 nd[of x] nd[of "x + 2"] by simp_all
    moreover have "x + 2 = 6 + 6 * j + 1" by (simp add: x_def)
    ultimately show "\<not> (6 + 6 * j - 1) dvd n \<and> \<not> (6 + 6 * j + 1) dvd n"
      by (simp add: x_def)
  qed
  moreover have "\<not> 2 dvd n" "\<not> 3 dvd n" using assms(2) nd[of 2] nd[of 3] by simp_all
  ultimately show ?thesis using assms(2) by (simp add: IsPrime_unfold)
qed

lemma prime_divisor:
  assumes "2 \<le> (m::int)"
  obtains p where "is_prime p" "p dvd m"
proof -
  obtain d where d: "2 \<le> d" "d dvd m" "\<And>e. 2 \<le> e \<Longrightarrow> e dvd m \<Longrightarrow> d \<le> e"
    using least_divisor[OF assms] by blast
  have "\<not> e dvd d" if "e \<in> {2..<d}" for e
  proof
    assume "e dvd d"
    then have "e dvd m" using d(2) dvd_trans by blast
    then have "d \<le> e" using that by (intro d(3)) auto
    then show False using that by simp
  qed
  then have "is_prime d" using d(1) by (simp add: is_prime_def)
  then show ?thesis using d(2) by (rule that)
qed

lemma prime_above: "\<exists>p. n < p \<and> is_prime p"
proof -
  define k where "k = nat n"
  define m :: int where "m = fact k + 1"
  have "(1::int) \<le> fact k" by (rule fact_ge_1)
  then have "2 \<le> m" by (simp add: m_def)
  then obtain p where p: "is_prime p" "p dvd m" by (rule prime_divisor)
  have p1: "1 < p" using p(1) by (simp add: is_prime_def)
  have "n < p"
  proof (rule ccontr)
    assume "\<not> n < p"
    then have pn: "p \<le> n" by simp
    have "nat p dvd fact k" using p1 pn by (intro dvd_fact) (auto simp: k_def)
    then have "int (nat p) dvd int (fact k)" by (simp only: int_dvd_int_iff)
    then have "p dvd (fact k :: int)" using p1 by simp
    then have "p dvd m - fact k" using p(2) by (intro dvd_diff)
    then have "p dvd 1" by (simp add: m_def)
    then show False using p1 by simp
  qed
  then show ?thesis using p(1) by blast
qed

lemma IsPrime_above: "\<exists>k::nat. IsPrime (n + 1 + int k)"
proof -
  obtain p where p: "max n 4 < p" "is_prime p" using prime_above by blast
  then have "IsPrime p" by (intro IsPrime_complete) auto
  moreover have "p = n + 1 + int (nat (p - n - 1))" using p(1) by simp
  ultimately have "IsPrime (n + 1 + int (nat (p - n - 1)))" by simp
  then show ?thesis by (rule exI)
qed


text \<open>\<^verbatim>\<open>while (!this->IsPrime(++number)) {}\<close>: the loop ends because primes are unbounded.\<close>

function FindNextPrime :: "int \<Rightarrow> int" where
  "FindNextPrime number =
     (if \<not> IsPrime (number + 1) then FindNextPrime (number + 1) else number + 1)"
  by pat_completeness auto
termination
proof (relation "measure (\<lambda>number. LEAST k::nat. IsPrime (number + 1 + int k))", goal_cases)
  case 1
  then show ?case by simp
next
  case (2 number)
  define k0 where "k0 = (LEAST k::nat. IsPrime (number + 1 + int k))"
  have k0: "IsPrime (number + 1 + int k0)"
    unfolding k0_def using IsPrime_above[of number] by (rule LeastI_ex)
  have "k0 \<noteq> 0" using k0 2 by (auto intro: ccontr)
  then obtain m where m: "k0 = Suc m" by (cases k0) auto
  have "IsPrime (number + 1 + 1 + int m)" using k0 m by (simp add: algebra_simps)
  then have "(LEAST k::nat. IsPrime (number + 1 + 1 + int k)) \<le> m" by (rule Least_le)
  then show ?case using m by (simp add: k0_def)
qed

declare FindNextPrime.simps [simp del]

lemma FindNextPrime_IsPrime: "IsPrime (FindNextPrime n) \<and> n < FindNextPrime n"
proof (induction n rule: FindNextPrime.induct)
  case (1 number)
  show ?case
  proof (cases "IsPrime (number + 1)")
    case True
    then show ?thesis by (subst (1 2) FindNextPrime.simps) simp
  next
    case False
    then have "FindNextPrime number = FindNextPrime (number + 1)"
      by (subst FindNextPrime.simps) simp
    then show ?thesis using "1.IH"[OF False] by simp
  qed
qed

lemma FindNextPrime_is_prime:
  assumes "1 \<le> n"
  shows "is_prime (FindNextPrime n)" and "n < FindNextPrime n"
proof -
  show "n < FindNextPrime n" using FindNextPrime_IsPrime by blast
  then have "2 \<le> FindNextPrime n" using assms by simp
  then show "is_prime (FindNextPrime n)" using FindNextPrime_IsPrime by (intro IsPrime_sound) blast
qed

subsection \<open>Hashing and probing\<close>

definition Hash :: "'v HashTable \<Rightarrow> int \<Rightarrow> int \<Rightarrow> int" where
  "Hash this key k =
     cpp_mod (cpp_mod key (size_ht this) + k * (1 + cpp_mod key CONST_C)) (size_ht this)"

text \<open>
  The loop of \<^verbatim>\<open>FindKey\<close>, \<^verbatim>\<open>while (elem && k < this->size)\<close>, entered with the
  current \<open>k\<close>, \<open>hash\<close> and \<open>elem\<close>; it yields their values at the exit.
\<close>

function FindKey_loop ::
  "'v HashTable \<Rightarrow> int \<Rightarrow> int \<Rightarrow> int \<Rightarrow> 'v HTableCell option
     \<Rightarrow> error + (int \<times> int \<times> 'v HTableCell option)" where
  "FindKey_loop this key k hash elem =
     (case elem of
        None \<Rightarrow> Inr (k, hash, elem)
      | Some cell \<Rightarrow>
          if k < size_ht this then
            (if GetKey cell = key then Inr (k, hash, elem)
             else (case Get (elements this) (Hash this key (k + 1)) of
                     Inl e \<Rightarrow> Inl e
                   | Inr elem' \<Rightarrow> FindKey_loop this key (k + 1) (Hash this key (k + 1)) elem'))
          else Inr (k, hash, elem))"
  by pat_completeness auto
termination
  by (relation "measure (\<lambda>(this, key, k, hash, elem). nat (size_ht this - k))") auto

declare FindKey_loop.simps [simp del]

definition FindKey :: "'v HashTable \<Rightarrow> int \<Rightarrow> error + int" where
  "FindKey this key =
     (case Get (elements this) (Hash this key 0) of
        Inl e \<Rightarrow> Inl e
      | Inr elem0 \<Rightarrow>
          (case FindKey_loop this key 0 (Hash this key 0) elem0 of
             Inl e \<Rightarrow> Inl e
           | Inr (k, hash, elem) \<Rightarrow>
               (case elem of
                  None \<Rightarrow> Inr (- 1)
                | Some cell \<Rightarrow>
                    if k \<ge> size_ht this then Inr (- 1)
                    else if GetKey cell = CELL_STATE_int EMPTY then Inr (- 1)
                    else Inr hash)))"

text \<open>
  \<^verbatim>\<open>Find\<close> returns \<^verbatim>\<open>NULL\<close> (\<open>None\<close>) or a fresh copy of the cell found; it
  dereferences the pointer it reads without a check.
\<close>

definition Find :: "'v HashTable \<Rightarrow> int \<Rightarrow> error + 'v HTableCell option" where
  "Find this key =
     (case FindKey this key of
        Inl e \<Rightarrow> Inl e
      | Inr new_key \<Rightarrow>
          if new_key < 0 then Inr None
          else (case Get (elements this) new_key of
                  Inl e \<Rightarrow> Inl e
                | Inr None \<Rightarrow> Inl null_dereference
                | Inr (Some elem) \<Rightarrow> Inr (Some elem)))"

definition Exists :: "'v HashTable \<Rightarrow> int \<Rightarrow> error + bool" where
  "Exists this key =
     (case FindKey this key of
        Inl e \<Rightarrow> Inl e
      | Inr found_key \<Rightarrow> Inr (found_key > 0))"

definition GetSize :: "'v HashTable \<Rightarrow> int" where
  "GetSize this = size_ht this"

definition GetTotalElements :: "'v HashTable \<Rightarrow> int" where
  "GetTotalElements this = total_elements this"

text \<open>The default constructor.\<close>

definition new_HashTable :: "'v HTableCell option raw_memory \<Rightarrow> 'v HashTable" where
  "new_HashTable raw =
     \<lparr>elements = new_InitializedArray raw INIT_SIZE None,
      size_ht = INIT_SIZE,
      total_elements = 0\<rparr>"

subsection \<open>Insertion and rebuilding\<close>

text \<open>The probe loop of \<^verbatim>\<open>Insert\<close>, \<^verbatim>\<open>while (elem && k <= this->size)\<close>.\<close>

function Insert_loop ::
  "'v HashTable \<Rightarrow> int \<Rightarrow> int \<Rightarrow> int \<Rightarrow> 'v HTableCell option
     \<Rightarrow> error + (int \<times> int \<times> 'v HTableCell option)" where
  "Insert_loop this key k hash elem =
     (case elem of
        None \<Rightarrow> Inr (k, hash, elem)
      | Some cell \<Rightarrow>
          if k \<le> size_ht this then
            (if GetKey cell = key \<or> GetCellState cell = EMPTY then Inr (k, hash, elem)
             else (case Get (elements this) (Hash this key (k + 1)) of
                     Inl e \<Rightarrow> Inl e
                   | Inr elem' \<Rightarrow> Insert_loop this key (k + 1) (Hash this key (k + 1)) elem'))
          else Inr (k, hash, elem))"
  by pat_completeness auto
termination
  by (relation "measure (\<lambda>(this, key, k, hash, elem). nat (size_ht this + 1 - k))") auto

declare Insert_loop.simps [simp del]

text \<open>
  The first branch of \<^verbatim>\<open>ReHash\<close>: the new size, or \<open>None\<close> where the method
  returns at once.
\<close>

definition ReHash_size :: "'v HashTable \<Rightarrow> DIRECTION \<Rightarrow> int option" where
  "ReHash_size this dir =
     (if dir = UP \<and> of_int (total_elements this) \<ge> of_int (size_ht this) * MAX_RATIO
      then Some (FindNextPrime \<lfloor>of_int (size_ht this * EXPAND_SIZE) :: rat\<rfloor>)
      else if dir = DOWN \<and> size_ht this > INIT_SIZE
              \<and> of_int (total_elements this) < of_int (size_ht this) * MIN_RATIO
      then Some (FindNextPrime \<lfloor>of_int (size_ht this) * REDUCE_SIZE\<rfloor>)
      else None)"

text \<open>
  The loop of \<^verbatim>\<open>ReHash\<close> over the old array, \<^verbatim>\<open>for (i = 0; i < old_size; ++i)\<close>;
  \<open>ins\<close> is the call \<^verbatim>\<open>this->Insert\<close>, which may fail to return (\<open>None\<close>).
\<close>

function ReHash_loop ::
  "('v HashTable \<Rightarrow> int \<Rightarrow> 'v \<Rightarrow> 'v HashTable outcome option)
     \<Rightarrow> int \<Rightarrow> int \<Rightarrow> 'v HTableCell option InitializedArray \<Rightarrow> 'v HashTable
     \<Rightarrow> 'v HashTable outcome option" where
  "ReHash_loop ins i old_size old_elements this =
     (if i < old_size then
        (case Get old_elements i of
           Inl e \<Rightarrow> Some (Threw e this)
         | Inr None \<Rightarrow> ReHash_loop ins (i + 1) old_size old_elements this
         | Inr (Some elem) \<Rightarrow>
             if GetCellState elem = EMPTY then
               (case Set old_elements i None of
                  Inl e \<Rightarrow> Some (Threw e this)
                | Inr old_elements' \<Rightarrow> ReHash_loop ins (i + 1) old_size old_elements' this)
             else
               (case ins this (GetKey elem) (GetValue elem) of
                  None \<Rightarrow> None
                | Some (Threw e this') \<Rightarrow> Some (Threw e this')
                | Some (Returned this') \<Rightarrow> ReHash_loop ins (i + 1) old_size old_elements this'))
      else Some (Returned this))"
  by pat_completeness auto
termination
  by (relation "measure (\<lambda>(ins, i, old_size, old_elements, this). nat (old_size - i))") auto

declare ReHash_loop.simps [simp del]

text \<open>
  \<^verbatim>\<open>Insert\<close> ends with \<^verbatim>\<open>ReHash(UP)\<close>, and a rebuilding \<^verbatim>\<open>ReHash\<close> calls
  \<^verbatim>\<open>Insert\<close> for every live cell. The first argument bounds how many rebuilds may be
  nested inside one another; \<open>None\<close> says that the bound was too small. \<open>raw\<close> is
  the content of the buffers that a rebuild allocates for the new array.
\<close>

fun Insert :: "nat \<Rightarrow> 'v HTableCell option raw_memory \<Rightarrow> 'v HashTable \<Rightarrow> int \<Rightarrow> 'v
                 \<Rightarrow> 'v HashTable outcome option"
  and ReHash :: "nat \<Rightarrow> 'v HTableCell option raw_memory \<Rightarrow> DIRECTION \<Rightarrow> 'v HashTable
                 \<Rightarrow> 'v HashTable outcome option" where
  "Insert n raw this key value =
     (case FindKey this key of
        Inl e \<Rightarrow> Some (Threw e this)
      | Inr is_exist \<Rightarrow>
          if is_exist > 0 then
            (case Get (elements this) is_exist of
               Inl e \<Rightarrow> Some (Threw e this)
             | Inr elem \<Rightarrow>
                 (case Set (elements this) is_exist (Some (new_HTableCell key value)) of
                    Inl e \<Rightarrow> Some (Threw e this)
                  | Inr elements' \<Rightarrow> Some (Returned (this\<lparr>elements := elements'\<rparr>))))
          else
            (case Get (elements this) (Hash this key 0) of
               Inl e \<Rightarrow> Some (Threw e this)
             | Inr elem0 \<Rightarrow>
                 (case Insert_loop this key 0 (Hash this key 0) elem0 of
                    Inl e \<Rightarrow> Some (Threw e this)
                  | Inr (k, hash, elem) \<Rightarrow>
                      (let this1 = (if elem \<noteq> None
                                    then this\<lparr>total_elements := total_elements this - 1\<rparr>
                                    else this);
                           this2 = this1\<lparr>total_elements := total_elements this1 + 1\<rparr>
                       in case Set (elements this2) hash (Some (new_HTableCell key value)) of
                            Inl e \<Rightarrow> Some (Threw e this2)
                          | Inr elements' \<Rightarrow> ReHash n raw UP (this2\<lparr>elements := elements'\<rparr>)))))"
| "ReHash 0 raw dir this =
     (case ReHash_size this dir of
        None \<Rightarrow> Some (Returned this)
      | Some new_size \<Rightarrow> None)"
| "ReHash (Suc n) raw dir this =
     (case ReHash_size this dir of
        None \<Rightarrow> Some (Returned this)
      | Some new_size \<Rightarrow>
          ReHash_loop (\<lambda>this' key value. Insert n raw this' key value) 0 (size_ht this) (elements this)
            (this\<lparr>size_ht := new_size,
                  total_elements := 0,
                  elements := new_InitializedArray raw new_size None\<rparr>))"

declare Insert.simps [simp del]

subsection \<open>Removal\<close>

text \<open>
  \<^verbatim>\<open>Remove\<close> flips the state of the cell through the pointer read from the array, without
  calling \<^verbatim>\<open>Set\<close>: the cell lives in \<^verbatim>\<open>values[is_exist]\<close> (the default of the array
  is \<^verbatim>\<open>NULL\<close>, so a pointer that is not null was read from there), and the array's
  bookkeeping stays as it is.
\<close>

definition Remove :: "nat \<Rightarrow> 'v HTableCell option raw_memory \<Rightarrow> 'v HashTable \<Rightarrow> int
                       \<Rightarrow> 'v HashTable outcome option" where
  "Remove n raw this key =
     (case FindKey this key of
        Inl e \<Rightarrow> Some (Threw e this)
      | Inr is_exist \<Rightarrow>
          if is_exist < 0 then Some (Returned this)
          else (case Get (elements this) is_exist of
                  Inl e \<Rightarrow> Some (Threw e this)
                | Inr None \<Rightarrow> Some (Threw null_dereference this)
                | Inr (Some elem) \<Rightarrow>
                    if GetCellState elem = FULL then
                      ReHash n raw DOWN
                        (this\<lparr>elements := (elements this)
                                 \<lparr>values_arr := (values_arr (elements this))
                                    (is_exist := Some (SetCellState elem EMPTY))\<rparr>,
                              total_elements := total_elements this - 1\<rparr>)
                    else Some (Returned this)))"

subsection \<open>Merging two tables\<close>

text \<open>
  One of the two loops of the merging constructor,
  \<^verbatim>\<open>for (i = 0; i < ht.size; ++i)\<close>, over the table \<open>ht\<close> that is read.
\<close>

function merge_loop ::
  "('v HashTable \<Rightarrow> int \<Rightarrow> 'v \<Rightarrow> 'v HashTable outcome option)
     \<Rightarrow> int \<Rightarrow> 'v HashTable \<Rightarrow> 'v HashTable \<Rightarrow> 'v HashTable outcome option" where
  "merge_loop ins i ht this =
     (if i < size_ht ht then
        (case Get (elements ht) i of
           Inl e \<Rightarrow> Some (Threw e this)
         | Inr None \<Rightarrow> merge_loop ins (i + 1) ht this
         | Inr (Some elem) \<Rightarrow>
             if GetCellState elem = EMPTY then merge_loop ins (i + 1) ht this
             else
               (case ins this (GetKey elem) (GetValue elem) of
                  None \<Rightarrow> None
                | Some (Threw e this') \<Rightarrow> Some (Threw e this')
                | Some (Returned this') \<Rightarrow> merge_loop ins (i + 1) ht this'))
      else Some (Returned this))"
  by pat_completeness auto
termination
  by (relation "measure (\<lambda>(ins, i, ht, this). nat (size_ht ht - i))") auto

declare merge_loop.simps [simp del]

definition merge_HashTable ::
  "nat \<Rightarrow> 'v HTableCell option raw_memory \<Rightarrow> 'v HashTable \<Rightarrow> 'v HashTable
     \<Rightarrow> 'v HashTable outcome option" where
  "merge_HashTable n raw ht1 ht2 =
     (let new_size = FindNextPrime (2 * (size_ht ht1 + size_ht ht2));
          this = \<lparr>elements = new_InitializedArray raw new_size None,
                  size_ht = new_size,
                  total_elements = 0\<rparr>
      in case merge_loop (\<lambda>this' key value. Insert n raw this' key value) 0 ht1 this of
           None \<Rightarrow> None
         | Some (Threw e this') \<Rightarrow> Some (Threw e this')
         | Some (Returned this') \<Rightarrow>
             merge_loop (\<lambda>this' key value. Insert n raw this' key value) 0 ht2 this')"

subsection \<open>Observations used in the statements\<close>

text \<open>The slots of the table whose cell is in state \<^verbatim>\<open>FULL\<close>.\<close>

definition is_FULL :: "'v HashTable \<Rightarrow> int \<Rightarrow> bool" where
  "is_FULL this i =
     (case Get (elements this) i of
        Inr (Some cell) \<Rightarrow> GetCellState cell = FULL
      | _ \<Rightarrow> False)"

definition FULL_slots :: "'v HashTable \<Rightarrow> int list" where
  "FULL_slots this = filter (is_FULL this) [0 .. size_ht this - 1]"

text \<open>
  A run of calls on one table, each of which returns; \<open>None\<close> if one of them throws
  or needs more nested rebuilds than allowed.
\<close>

datatype 'v call = InsertCall int 'v | RemoveCall int

fun run :: "nat \<Rightarrow> 'v HTableCell option raw_memory \<Rightarrow> 'v HashTable \<Rightarrow> 'v call list
              \<Rightarrow> 'v HashTable option" where
  "run n raw this [] = Some this"
| "run n raw this (InsertCall key value # cs) =
     (case Insert n raw this key value of
        Some (Returned this') \<Rightarrow> run n raw this' cs
      | _ \<Rightarrow> None)"
| "run n raw this (RemoveCall key # cs) =
     (case Remove n raw this key of
        Some (Returned this') \<Rightarrow> run n raw this' cs
      | _ \<Rightarrow> None)"

definition Set_all_then_Get :: "'v InitializedArray \<Rightarrow> (int \<times> 'v) list \<Rightarrow> int \<Rightarrow> error + 'v" where
  "Set_all_then_Get this ws index =
     (case Set_all this ws of Inl e \<Rightarrow> Inl e | Inr this' \<Rightarrow> Get this' index)"

text \<open>Memory in which every pointer is \<^verbatim>\<open>NULL\<close> and every number is 0.\<close>

definition null_memory :: "'v HTableCell option raw_memory" where
  "null_memory = const_memory None 0"

section \<open>Tables that can arise\<close>

text \<open>
  The tables a program can hold: built by the default constructor, by \<^verbatim>\<open>Insert\<close> or
  \<^verbatim>\<open>Remove\<close> on such a table (whether the call returns or an exception leaves it,
  and whatever bound on nested rebuilds let it end), or by the merging constructor when
  it returns. (The copy constructor of the table is not modelled: its statement
  \<^verbatim>\<open>elements->Set(i) = ...\<close> matches no member of the array.)
\<close>

inductive reachable :: "'v HashTable \<Rightarrow> bool" where
  construct: "reachable (new_HashTable raw)"
| insert: "reachable this \<Longrightarrow> Insert n raw this key value = Some r \<Longrightarrow> reachable (state_of r)"
| remove: "reachable this \<Longrightarrow> Remove n raw this key = Some r \<Longrightarrow> reachable (state_of r)"
| merge: "reachable ht1 \<Longrightarrow> reachable ht2 \<Longrightarrow> merge_HashTable n raw ht1 ht2 = Some (Returned this)
            \<Longrightarrow> reachable this"

text \<open>The capacity invariant: the size is a prime and at least the initial size.\<close>

definition size_ok :: "'v HashTable \<Rightarrow> bool" where
  "size_ok this \<longleftrightarrow> is_prime (size_ht this) \<and> INIT_SIZE \<le> size_ht this"

text \<open>What a call keeps, whether it returns or throws.\<close>

definition keeps_size_ok :: "('v HashTable \<Rightarrow> int \<Rightarrow> 'v \<Rightarrow> 'v HashTable outcome option) \<Rightarrow> bool" where
  "keeps_size_ok ins \<longleftrightarrow>
     (\<forall>this key value r. size_ok this \<longrightarrow> ins this key value = Some r \<longrightarrow> size_ok (state_of r))"

text \<open>
  An insertion that neither rebuilds nor fails to return as long as the table stays
  below the load limit; an insertion that returns on every table of prime size.
\<close>

definition small_step :: "('v HashTable \<Rightarrow> int \<Rightarrow> 'v \<Rightarrow> 'v HashTable outcome option) \<Rightarrow> bool" where
  "small_step ins \<longleftrightarrow>
     (\<forall>this key value. 4 * (total_elements this + 1) < 3 * size_ht this \<longrightarrow>
        (\<exists>r. ins this key value = Some r \<and> size_ht (state_of r) = size_ht this
          \<and> total_elements (state_of r) \<le> total_elements this + 1))"

definition always_returns :: "('v HashTable \<Rightarrow> int \<Rightarrow> 'v \<Rightarrow> 'v HashTable outcome option) \<Rightarrow> bool" where
  "always_returns ins \<longleftrightarrow> (\<forall>this key value. size_ok this \<longrightarrow> ins this key value \<noteq> None)"

text \<open>The inputs of the scenarios below.\<close>

fun has_returned :: "'s outcome \<Rightarrow> bool" where
  "has_returned (Returned s) = True"
| "has_returned (Threw e s) = False"

definition table_x :: "string HashTable option" where
  "table_x = run 1 null_memory (new_HashTable null_memory) [InsertCall 1 ''x'']"

definition table_yz :: "string HashTable option" where
  "table_yz = run 1 null_memory (new_HashTable null_memory) [InsertCall 1 ''y'', InsertCall 8 ''z'']"

definition merge_example :: "string HashTable outcome option" where
  "merge_example =
     (case table_x of
        None \<Rightarrow> None
      | Some ht1 \<Rightarrow>
          (case table_yz of
             None \<Rightarrow> None
           | Some ht2 \<Rightarrow> merge_HashTable 1 null_memory ht1 ht2))"

definition keys_1_to_5 :: "string call list" where
  "keys_1_to_5 =
     [InsertCall 1 ''a'', InsertCall 2 ''b'', InsertCall 3 ''c'', InsertCall 4 ''d'',
      InsertCall 5 ''e'']"

definition keys_1_to_6 :: "string call list" where
  "keys_1_to_6 = keys_1_to_5 @ [InsertCall 6 ''f'']"

section \<open>The lazily initialised array: correctness\<close>

text \<open>
  The invariant of the array: the first \<open>top\<close> entries of \<open>init_indexes\<close> are
  the indices written so far, and \<open>short_cuts\<close> leads each of them back to its entry.
  \<open>written\<close> and \<open>content\<close> say what the array holds, whatever the buffers held when
  they were allocated.
\<close>

definition arr_inv :: "'v InitializedArray \<Rightarrow> bool" where
  "arr_inv a \<longleftrightarrow> 0 \<le> top_arr a \<and>
     (\<forall>p. 0 \<le> p \<and> p < top_arr a \<longrightarrow> short_cuts a (init_indexes a p) = p)"

definition written :: "'v InitializedArray \<Rightarrow> int \<Rightarrow> bool" where
  "written a i \<longleftrightarrow> (\<exists>p. 0 \<le> p \<and> p < top_arr a \<and> init_indexes a p = i)"

definition content :: "'v InitializedArray \<Rightarrow> int \<Rightarrow> 'v" where
  "content a i = (if written a i then values_arr a i else def_arr a)"

lemma IsInitialized_written:
  "arr_inv a \<Longrightarrow> 0 \<le> i \<Longrightarrow> i < length_arr a \<Longrightarrow> IsInitialized a i = Inr (written a i)"
  unfolding IsInitialized_def arr_inv_def written_def by auto

lemma Get_content:
  "arr_inv a \<Longrightarrow> 0 \<le> i \<Longrightarrow> i < length_arr a \<Longrightarrow> Get a i = Inr (content a i)"
  by (simp add: Get_def IsInitialized_written content_def)

lemma Set_content:
  assumes "arr_inv a" "0 \<le> i" "i < length_arr a"
  shows "\<exists>a'. Set a i v = Inr a' \<and> arr_inv a' \<and> length_arr a' = length_arr a \<and> def_arr a' = def_arr a
     \<and> content a' = (content a)(i := v)"
proof (cases "written a i")
  case True
  let ?a' = "a\<lparr>values_arr := (values_arr a)(i := v)\<rparr>"
  have s: "Set a i v = Inr ?a'"
    using True assms by (simp add: Set_def IsInitialized_written)
  have w: "written ?a' = written a" by (simp add: written_def fun_eq_iff)
  have "arr_inv ?a'" using assms(1) by (simp add: arr_inv_def)
  moreover have "content ?a' = (content a)(i := v)"
    using True by (auto simp: content_def w fun_eq_iff)
  ultimately show ?thesis using s by simp
next
  case False
  let ?t = "top_arr a"
  let ?a' = "a\<lparr>init_indexes := (init_indexes a)(?t := i),
                 short_cuts := (short_cuts a)(i := ?t),
                 top_arr := ?t + 1,
                 values_arr := (values_arr a)(i := v)\<rparr>"
  have s: "Set a i v = Inr ?a'"
    using False assms by (simp add: Set_def IsInitialized_written)
  have t0: "0 \<le> ?t" using assms(1) by (simp add: arr_inv_def)
  have ni: "\<And>p. 0 \<le> p \<Longrightarrow> p < ?t \<Longrightarrow> init_indexes a p \<noteq> i"
    using False by (auto simp: written_def)
  have sc: "\<And>p. 0 \<le> p \<Longrightarrow> p < ?t \<Longrightarrow> short_cuts a (init_indexes a p) = p"
    using assms(1) by (simp add: arr_inv_def)
  have w: "written ?a' j \<longleftrightarrow> written a j \<or> j = i" for j
  proof
    assume "written ?a' j"
    then obtain p where p: "0 \<le> p" "p < ?t + 1" "((init_indexes a)(?t := i)) p = j"
      by (auto simp: written_def)
    show "written a j \<or> j = i"
    proof (cases "p = ?t")
      case True then show ?thesis using p by simp
    next
      case False
      then have "p < ?t" "init_indexes a p = j" using p by auto
      then show ?thesis using p(1) by (auto simp: written_def)
    qed
  next
    assume "written a j \<or> j = i"
    then show "written ?a' j"
    proof
      assume "written a j"
      then obtain p where p: "0 \<le> p" "p < ?t" "init_indexes a p = j" by (auto simp: written_def)
      then have "0 \<le> p \<and> p < ?t + 1 \<and> ((init_indexes a)(?t := i)) p = j" by simp
      then show ?thesis unfolding written_def by (simp del: fun_upd_apply) blast
    next
      assume "j = i"
      then have "0 \<le> ?t \<and> ?t < ?t + 1 \<and> ((init_indexes a)(?t := i)) ?t = j" using t0 by simp
      then show ?thesis unfolding written_def by (simp del: fun_upd_apply) blast
    qed
  qed
  have inv: "arr_inv ?a'"
    unfolding arr_inv_def
  proof (intro conjI allI impI)
    show "0 \<le> top_arr ?a'" using t0 by simp
  next
    fix p assume "0 \<le> p \<and> p < top_arr ?a'"
    then have p: "0 \<le> p" "p < ?t + 1" by simp_all
    show "short_cuts ?a' (init_indexes ?a' p) = p"
    proof (cases "p = ?t")
      case True then show ?thesis by simp
    next
      case False
      then have "p < ?t" using p by simp
      then show ?thesis using ni[OF p(1)] sc[OF p(1)] False by simp
    qed
  qed
  have "content ?a' = (content a)(i := v)"
    using False by (auto simp: content_def w fun_eq_iff)
  then show ?thesis using s inv by simp
qed

lemma new_inv: "arr_inv (new_InitializedArray raw len d)"
  by (simp add: arr_inv_def new_InitializedArray_def)

lemma new_content: "content (new_InitializedArray raw len d) = (\<lambda>_. d)"
  by (auto simp: content_def written_def new_InitializedArray_def fun_eq_iff)

lemma Set_all_content:
  "arr_inv a \<Longrightarrow> \<forall>(i, v) \<in> set ws. 0 \<le> i \<and> i < length_arr a \<Longrightarrow>
   \<exists>a'. Set_all a ws = Inr a' \<and> arr_inv a' \<and> length_arr a' = length_arr a \<and> def_arr a' = def_arr a \<and>
     (\<forall>j. content a' j = (case map_of (rev ws) j of None \<Rightarrow> content a j | Some v \<Rightarrow> v))"
proof (induction ws arbitrary: a)
  case Nil
  then show ?case by simp
next
  case (Cons w ws)
  obtain i v where w: "w = (i, v)" by (cases w)
  from Cons.prems w have r: "0 \<le> i" "i < length_arr a" by auto
  from Set_content[OF Cons.prems(1) r, of v] obtain a1 where
    a1: "Set a i v = Inr a1" "arr_inv a1" "length_arr a1 = length_arr a" "def_arr a1 = def_arr a"
        "content a1 = (content a)(i := v)" by blast
  from Cons.prems a1 have "\<forall>(i, v) \<in> set ws. 0 \<le> i \<and> i < length_arr a1" by auto
  from Cons.IH[OF a1(2) this] obtain a' where
    a': "Set_all a1 ws = Inr a'" "arr_inv a'" "length_arr a' = length_arr a1" "def_arr a' = def_arr a1"
        "\<forall>j. content a' j = (case map_of (rev ws) j of None \<Rightarrow> content a1 j | Some v \<Rightarrow> v)" by blast
  show ?case using a1 a' w
    by (auto simp: map_add_def split: option.splits)
qed


section \<open>Claims about the lazily initialised array\<close>

text \<open>
  C2. Default-read semantics: on an array that has just been constructed (any length, any
  default value, any content of the freshly allocated buffers), after any sequence of
  \<^verbatim>\<open>Set\<close> calls at indices in range, \<^verbatim>\<open>Get\<close> at an index in range returns the value
  of the last \<^verbatim>\<open>Set\<close> at that index, and the default value if the index was never
  passed to \<^verbatim>\<open>Set\<close>.
\<close>

theorem Lazy_Array_default_read:
  assumes "\<forall>(i, v) \<in> set ws. 0 \<le> i \<and> i < len" and "0 \<le> j" and "j < len"
  shows "Set_all_then_Get (new_InitializedArray raw len d) ws j =
           Inr (case map_of (rev ws) j of None \<Rightarrow> d | Some v \<Rightarrow> v)"
proof -
  let ?a = "new_InitializedArray raw len d"
  have len: "length_arr ?a = len" by (simp add: new_InitializedArray_def)
  have "\<forall>(i, v) \<in> set ws. 0 \<le> i \<and> i < length_arr ?a" using assms(1) len by simp
  from Set_all_content[OF new_inv this] obtain a' where
    a': "Set_all ?a ws = Inr a'" "arr_inv a'" "length_arr a' = length_arr ?a"
        "\<forall>j. content a' j = (case map_of (rev ws) j of None \<Rightarrow> content ?a j | Some v \<Rightarrow> v)"
    by blast
  have "Get a' j = Inr (content a' j)"
    using a'(2,3) assms(2,3) len by (intro Get_content) simp_all
  moreover have "content ?a j = d" by (simp add: new_content)
  ultimately show ?thesis
    using a'(1,4) by (simp add: Set_all_then_Get_def split: option.split)
qed

theorem Lazy_Array_default_read_witness:
  "Set_all_then_Get (new_InitializedArray (const_memory 7 0) 5 (- 1)) [] 3 = Inr (- 1 :: int)
   \<and> Set_all_then_Get (new_InitializedArray (const_memory 7 0) 5 (- 1)) [(3, 42)] 3 = Inr (42 :: int)
   \<and> Set_all_then_Get (new_InitializedArray (const_memory 7 0) 5 (- 1)) [(3, 42)] 2 = Inr (- 1 :: int)"
  using Lazy_Array_default_read [of "[]" 5 3 "const_memory 7 0" "- 1 :: int"]
        Lazy_Array_default_read [of "[(3, 42)]" 5 3 "const_memory 7 0" "- 1 :: int"]
        Lazy_Array_default_read [of "[(3, 42)]" 5 2 "const_memory 7 0" "- 1 :: int"]
  by simp

text \<open>
  C9. Copy equivalence fails. The source array has length 5 and default \<open>-1\<close>, and
  \<^verbatim>\<open>Set(3, 42)\<close> was called on it, so its \<^verbatim>\<open>Get(3)\<close> is 42. The copy constructor
  copies position 0 of each buffer (\<open>top = 1\<close>), not position 3: \<^verbatim>\<open>Get(3)\<close> on the copy
  returns what the freshly allocated \<^verbatim>\<open>values\<close> buffer held at position 3, or the
  default, according to what the fresh \<^verbatim>\<open>short_cuts\<close> buffer held there.
\<close>

theorem copy_InitializedArray_loses_value:
  "\<exists>src. Set (new_InitializedArray raw 5 (- 1)) 3 42 = Inr src
     \<and> Get src 3 = Inr (42 :: int)
     \<and> Length (copy_InitializedArray raw' src) = Length src
     \<and> Default (copy_InitializedArray raw' src) = Default src
     \<and> Get (copy_InitializedArray raw' src) 3 =
           Inr (if raw_short_cuts raw' 3 = 0 then raw_values raw' 3 else - 1)"
proof -
  let ?src = "\<lparr>values_arr = (raw_values raw)(3 := 42),
               short_cuts = (raw_short_cuts raw)(3 := 0),
               init_indexes = (raw_init_indexes raw)(0 := 3),
               top_arr = 1, length_arr = 5, def_arr = - 1\<rparr>"
  let ?copy = "\<lparr>values_arr = (raw_values raw')(0 := raw_values raw 0),
                short_cuts = (raw_short_cuts raw')(0 := raw_short_cuts raw 0),
                init_indexes = (raw_init_indexes raw')(0 := 3),
                top_arr = 1, length_arr = 5, def_arr = - 1\<rparr>"
  have src: "Set (new_InitializedArray raw 5 (- 1)) 3 42 = Inr ?src"
    by (simp add: Set_def IsInitialized_def new_InitializedArray_def)
  have get_src: "Get ?src 3 = Inr 42"
    by (simp add: Get_def IsInitialized_def)
  have copy: "copy_InitializedArray raw' ?src = ?copy"
    by (simp add: copy_InitializedArray_def copy_loop.simps)
  have "Get ?copy 3 = Inr (if raw_short_cuts raw' 3 = 0 then raw_values raw' 3 else - 1)"
    by (auto simp: Get_def IsInitialized_def)
  moreover have "Length ?copy = Length ?src" "Default ?copy = Default ?src"
    by (simp_all add: Length_def Default_def)
  ultimately show ?thesis using src get_src copy by simp
qed

section \<open>The capacity stays a prime\<close>

lemma is_prime_7: "is_prime 7"
proof -
  have "{2..<7::int} = {2, 3, 4, 5, 6}" by auto
  then show ?thesis by (simp add: is_prime_def)
qed

lemma floor_half: "\<lfloor>of_int s * REDUCE_SIZE\<rfloor> = s div 2"
proof -
  have "(of_int s :: rat) * REDUCE_SIZE = of_int s / of_int 2" by (simp add: REDUCE_SIZE_def)
  then show ?thesis by (simp only: floor_divide_of_int_eq)
qed

lemma floor_double: "\<lfloor>of_int (s * EXPAND_SIZE) :: rat\<rfloor> = s * 2"
  by (simp only: floor_of_int EXPAND_SIZE_def)

lemma is_prime_above_7:
  assumes "is_prime s" "7 < s"
  shows "11 \<le> s"
proof -
  have "\<not> 2 dvd s" "\<not> 3 dvd s" using assms by (simp_all add: is_prime_def)
  then show ?thesis using assms(2) by presburger
qed

lemma is_prime_above_5:
  assumes "is_prime s" "5 < s"
  shows "7 \<le> s"
proof -
  have "\<not> 2 dvd s" using assms by (simp add: is_prime_def)
  then show ?thesis using assms(2) by presburger
qed

lemma ReHash_size_ok:
  assumes "size_ok this" "ReHash_size this dir = Some s"
  shows "is_prime s \<and> INIT_SIZE \<le> s"
proof -
  from assms(1) have p: "is_prime (size_ht this)" and ge: "7 \<le> size_ht this"
    by (simp_all add: size_ok_def INIT_SIZE_def)
  from assms(2) have "s = FindNextPrime (size_ht this * 2)
      \<or> 7 < size_ht this \<and> s = FindNextPrime (size_ht this div 2)"
    unfolding ReHash_size_def floor_half floor_double INIT_SIZE_def
    by (auto split: if_splits)
  then consider
      (up) "s = FindNextPrime (size_ht this * 2)"
    | (down) "7 < size_ht this" "s = FindNextPrime (size_ht this div 2)"
    by blast
  then show ?thesis
  proof cases
    case up
    have "1 \<le> size_ht this * 2" using ge by simp
    from FindNextPrime_is_prime[OF this] show ?thesis
      using ge up by (simp add: INIT_SIZE_def)
  next
    case down
    have "11 \<le> size_ht this" using p down(1) by (rule is_prime_above_7)
    then have 5: "5 \<le> size_ht this div 2" by simp
    then have "1 \<le> size_ht this div 2" by simp
    from FindNextPrime_is_prime[OF this] have "is_prime s" "5 < s"
      using down(2) 5 by simp_all
    then show ?thesis using is_prime_above_5 by (simp add: INIT_SIZE_def)
  qed
qed

lemma keeps_size_okD:
  "keeps_size_ok ins \<Longrightarrow> size_ok this \<Longrightarrow> ins this key value = Some r \<Longrightarrow> size_ok (state_of r)"
  by (auto simp: keeps_size_ok_def)

lemma ReHash_loop_size_ok:
  "keeps_size_ok ins \<Longrightarrow> size_ok this \<Longrightarrow>
   ReHash_loop ins i old_size old_elements this = Some r \<Longrightarrow> size_ok (state_of r)"
proof (induction ins i old_size old_elements this rule: ReHash_loop.induct)
  case (1 ins i old_size old_elements this)
  from "1.prems"(3) have
    "(if i < old_size then
        (case Get old_elements i of
           Inl e \<Rightarrow> Some (Threw e this)
         | Inr None \<Rightarrow> ReHash_loop ins (i + 1) old_size old_elements this
         | Inr (Some elem) \<Rightarrow>
             if GetCellState elem = EMPTY then
               (case Set old_elements i None of
                  Inl e \<Rightarrow> Some (Threw e this)
                | Inr old_elements' \<Rightarrow> ReHash_loop ins (i + 1) old_size old_elements' this)
             else
               (case ins this (GetKey elem) (GetValue elem) of
                  None \<Rightarrow> None
                | Some (Threw e this') \<Rightarrow> Some (Threw e this')
                | Some (Returned this') \<Rightarrow> ReHash_loop ins (i + 1) old_size old_elements this'))
      else Some (Returned this)) = Some r"
    by (subst (asm) ReHash_loop.simps) simp
  then show ?case
    using "1.IH" "1.prems"(1,2) keeps_size_okD[OF "1.prems"(1,2)]
    by (fastforce split: if_splits sum.splits option.splits outcome.splits)
qed

lemma merge_loop_size_ok:
  "keeps_size_ok ins \<Longrightarrow> size_ok this \<Longrightarrow>
   merge_loop ins i ht this = Some r \<Longrightarrow> size_ok (state_of r)"
proof (induction ins i ht this rule: merge_loop.induct)
  case (1 ins i ht this)
  from "1.prems"(3) have
    "(if i < size_ht ht then
        (case Get (elements ht) i of
           Inl e \<Rightarrow> Some (Threw e this)
         | Inr None \<Rightarrow> merge_loop ins (i + 1) ht this
         | Inr (Some elem) \<Rightarrow>
             if GetCellState elem = EMPTY then merge_loop ins (i + 1) ht this
             else
               (case ins this (GetKey elem) (GetValue elem) of
                  None \<Rightarrow> None
                | Some (Threw e this') \<Rightarrow> Some (Threw e this')
                | Some (Returned this') \<Rightarrow> merge_loop ins (i + 1) ht this'))
      else Some (Returned this)) = Some r"
    by (subst (asm) merge_loop.simps) simp
  then show ?case
    using "1.IH" "1.prems"(1,2) keeps_size_okD[OF "1.prems"(1,2)]
    by (fastforce split: if_splits sum.splits option.splits outcome.splits)
qed


lemma size_ok_cong: "size_ht this' = size_ht this \<Longrightarrow> size_ok this \<Longrightarrow> size_ok this'"
  by (simp add: size_ok_def)

lemma Insert_cases:
  assumes "Insert n raw this key value = Some r"
  shows "size_ht (state_of r) = size_ht this
         \<or> (\<exists>this'. size_ht this' = size_ht this \<and> ReHash n raw UP this' = Some r)"
proof -
  have *: "ReHash n raw UP this' = Some r \<Longrightarrow> size_ht this' = size_ht this \<Longrightarrow> ?thesis" for this'
    by blast
  from assms show ?thesis
    apply (subst (asm) Insert.simps)
    by (auto split: if_splits sum.splits option.splits prod.splits simp: Let_def elim!: *)
qed

lemma Remove_cases:
  assumes "Remove n raw this key = Some r"
  shows "size_ht (state_of r) = size_ht this
         \<or> (\<exists>this'. size_ht this' = size_ht this \<and> ReHash n raw DOWN this' = Some r)"
proof -
  have *: "ReHash n raw DOWN this' = Some r \<Longrightarrow> size_ht this' = size_ht this \<Longrightarrow> ?thesis" for this'
    by blast
  from assms show ?thesis
    unfolding Remove_def
    by (auto split: if_splits sum.splits option.splits elim!: *)
qed

lemma Insert_size_ok_step:
  assumes rehash: "\<And>dir this r. size_ok this \<Longrightarrow> ReHash n raw dir this = Some r \<Longrightarrow> size_ok (state_of r)"
    and ok: "size_ok this" and ins: "Insert n raw this key value = Some r"
  shows "size_ok (state_of r)"
  using Insert_cases[OF ins] ok rehash size_ok_cong by blast

lemma ReHash_size_ok_step:
  assumes insert: "keeps_size_ok (\<lambda>this' key value. Insert n raw this' key value)"
    and ok: "size_ok this" and re: "ReHash (Suc n) raw dir this = Some r"
  shows "size_ok (state_of r)"
proof (cases "ReHash_size this dir")
  case None
  then show ?thesis using re ok by auto
next
  case (Some new_size)
  let ?this' = "this\<lparr>size_ht := new_size, total_elements := 0,
                     elements := new_InitializedArray raw new_size None\<rparr>"
  have "size_ok ?this'" using ReHash_size_ok[OF ok Some] by (simp add: size_ok_def)
  moreover have "ReHash_loop (\<lambda>this' key value. Insert n raw this' key value) 0 (size_ht this)
      (elements this) ?this' = Some r"
    using re Some by simp
  ultimately show ?thesis using insert ReHash_loop_size_ok by blast
qed

lemma ReHash_0_size_ok:
  "size_ok this \<Longrightarrow> ReHash 0 raw dir this = Some r \<Longrightarrow> size_ok (state_of r)"
  by (auto split: option.splits)

lemma Insert_ReHash_size_ok:
  "(\<forall>this key value r. size_ok this \<longrightarrow> Insert n raw this key value = Some r \<longrightarrow> size_ok (state_of r))
   \<and> (\<forall>dir this r. size_ok this \<longrightarrow> ReHash n raw dir this = Some r \<longrightarrow> size_ok (state_of r))"
proof (induction n)
  case 0
  have re: "\<And>dir this r. size_ok (this :: 'a HashTable) \<Longrightarrow> ReHash 0 raw dir this = Some r \<Longrightarrow> size_ok (state_of r)"
    by (rule ReHash_0_size_ok)
  then show ?case using Insert_size_ok_step[of 0 raw] by blast
next
  case (Suc n)
  then have "keeps_size_ok (\<lambda>this' key value. Insert n raw this' key value)"
    by (simp add: keeps_size_ok_def)
  then have re: "\<And>dir this r. size_ok (this :: 'a HashTable) \<Longrightarrow> ReHash (Suc n) raw dir this = Some r
      \<Longrightarrow> size_ok (state_of r)"
    using ReHash_size_ok_step by blast
  then show ?case using Insert_size_ok_step[of "Suc n" raw] by blast
qed

lemma Insert_size_ok:
  "size_ok this \<Longrightarrow> Insert n raw this key value = Some r \<Longrightarrow> size_ok (state_of r)"
  using Insert_ReHash_size_ok by blast

lemma Insert_keeps_size_ok: "keeps_size_ok (\<lambda>this' key value. Insert n raw this' key value)"
  using Insert_size_ok by (auto simp: keeps_size_ok_def)

lemma ReHash_size_ok':
  "size_ok this \<Longrightarrow> ReHash n raw dir this = Some r \<Longrightarrow> size_ok (state_of r)"
  using Insert_ReHash_size_ok by blast

lemma Remove_size_ok:
  assumes "size_ok this" "Remove n raw this key = Some r"
  shows "size_ok (state_of r)"
proof -
  show ?thesis
    using Remove_cases[OF assms(2)] assms(1) ReHash_size_ok' size_ok_cong by blast
qed

lemma merge_size_ok:
  assumes "size_ok ht1" "size_ok ht2" "merge_HashTable n raw ht1 ht2 = Some r"
  shows "size_ok (state_of r)"
proof -
  let ?s = "FindNextPrime (2 * (size_ht ht1 + size_ht ht2))"
  let ?T = "\<lparr>elements = new_InitializedArray raw ?s None, size_ht = ?s, total_elements = 0\<rparr>"
  have "1 \<le> 2 * (size_ht ht1 + size_ht ht2)"
    using assms(1,2) by (simp add: size_ok_def INIT_SIZE_def)
  from FindNextPrime_is_prime[OF this] have ok: "size_ok ?T"
    using assms(1,2) by (simp add: size_ok_def INIT_SIZE_def)
  note k = Insert_keeps_size_ok[of n raw]
  from assms(3) show ?thesis
    unfolding merge_HashTable_def Let_def
    using merge_loop_size_ok[OF k ok] merge_loop_size_ok[OF k]
    by (fastforce split: option.splits outcome.splits)
qed

lemma new_HashTable_size_ok: "size_ok (new_HashTable raw)"
  by (simp add: size_ok_def new_HashTable_def INIT_SIZE_def is_prime_7)

lemma reachable_size_ok: "reachable this \<Longrightarrow> size_ok this"
proof (induction rule: reachable.induct)
  case (construct raw)
  show ?case by (rule new_HashTable_size_ok)
next
  case (insert this n raw key "value" r)
  from insert.IH insert.hyps(2) show ?case by (rule Insert_size_ok)
next
  case (remove this n raw key r)
  from remove.IH remove.hyps(2) show ?case by (rule Remove_size_ok)
next
  case (merge ht1 ht2 n raw this)
  then show ?case using merge_size_ok[of ht1 ht2 n raw "Returned this"] by simp
qed

lemma reachable_run: "reachable this \<Longrightarrow> run n raw this cs = Some this' \<Longrightarrow> reachable this'"
proof (induction cs arbitrary: this)
  case Nil
  then show ?case by simp
next
  case (Cons c cs)
  show ?case
  proof (cases c)
    case (InsertCall key v)
    then obtain this1 where r: "Insert n raw this key v = Some (Returned this1)"
        "run n raw this1 cs = Some this'"
      using Cons.prems(2) by (auto split: option.splits outcome.splits)
    from reachable.insert[OF Cons.prems(1) r(1)] have "reachable this1" by simp
    from Cons.IH[OF this r(2)] show ?thesis .
  next
    case (RemoveCall key)
    then obtain this1 where r: "Remove n raw this key = Some (Returned this1)"
        "run n raw this1 cs = Some this'"
      using Cons.prems(2) by (auto split: option.splits outcome.splits)
    from reachable.remove[OF Cons.prems(1) r(1)] have "reachable this1" by simp
    from Cons.IH[OF this r(2)] show ?thesis .
  qed
qed

section \<open>Every call returns\<close>

lemma ratio_up: "(of_int s * MAX_RATIO \<le> (of_int t :: rat)) \<longleftrightarrow> 3 * s \<le> 4 * t"
proof -
  have "(of_int s * MAX_RATIO \<le> (of_int t :: rat)) \<longleftrightarrow> (of_int (3 * s) :: rat) \<le> of_int (4 * t)"
    by (simp add: MAX_RATIO_def field_simps)
  then show ?thesis by (simp only: of_int_le_iff)
qed

lemma ReHash_size_UP_None:
  "4 * total_elements this < 3 * size_ht this \<Longrightarrow> ReHash_size this UP = None"
  by (simp add: ReHash_size_def ratio_up)

lemma ReHash_no_rebuild: "ReHash_size this dir = None \<Longrightarrow> ReHash n raw dir this = Some (Returned this)"
  by (cases n) simp_all

lemma Insert_without_rebuild:
  assumes "4 * (total_elements this + 1) < 3 * size_ht this"
  shows "\<exists>r. Insert n raw this key value = Some r \<and> size_ht (state_of r) = size_ht this
             \<and> total_elements (state_of r) \<le> total_elements this + 1"
proof -
  have re: "ReHash n raw UP this' = Some (Returned this')"
    if "size_ht this' = size_ht this" "total_elements this' \<le> total_elements this + 1" for this'
    using that assms by (intro ReHash_no_rebuild ReHash_size_UP_None) simp
  show ?thesis
    apply (subst Insert.simps)
    by (auto split: if_splits sum.splits option.splits prod.splits simp: Let_def re)
qed


lemma ReHash_loop_unfold:
  "ReHash_loop ins i old_size old_elements this =
     (if i < old_size then
        (case Get old_elements i of
           Inl e \<Rightarrow> Some (Threw e this)
         | Inr None \<Rightarrow> ReHash_loop ins (i + 1) old_size old_elements this
         | Inr (Some elem) \<Rightarrow>
             if GetCellState elem = EMPTY then
               (case Set old_elements i None of
                  Inl e \<Rightarrow> Some (Threw e this)
                | Inr old_elements' \<Rightarrow> ReHash_loop ins (i + 1) old_size old_elements' this)
             else
               (case ins this (GetKey elem) (GetValue elem) of
                  None \<Rightarrow> None
                | Some (Threw e this') \<Rightarrow> Some (Threw e this')
                | Some (Returned this') \<Rightarrow> ReHash_loop ins (i + 1) old_size old_elements this'))
      else Some (Returned this))"
  by (rule ReHash_loop.simps)

lemma ReHash_loop_returns_small:
  "small_step ins \<Longrightarrow> total_elements this \<le> i \<Longrightarrow> 4 * old_size < 3 * size_ht this \<Longrightarrow>
         ReHash_loop ins i old_size old_elements this \<noteq> None"
proof (induction ins i old_size old_elements this rule: ReHash_loop.induct)
  case (1 ins' i old_size old_elements this)
  show ?case
  proof (cases "i < old_size")
    case False
    then show ?thesis by (subst ReHash_loop_unfold) simp
  next
    case True
    then have "4 * (total_elements this + 1) < 3 * size_ht this" using "1.prems"(2,3) by simp
    with "1.prems"(1) have
      step: "\<exists>r. ins' this key value = Some r \<and> size_ht (state_of r) = size_ht this
          \<and> total_elements (state_of r) \<le> total_elements this + 1" for key "value"
      unfolding small_step_def by blast
    show ?thesis
    proof (cases "Get old_elements i")
      case (Inl e)
      then show ?thesis using True by (subst ReHash_loop_unfold) simp
    next
      case (Inr elem)
      show ?thesis
      proof (cases elem)
        case None
        from "1.IH"(1)[OF True Inr None "1.prems"(1)] "1.prems"(2,3) have
          "ReHash_loop ins' (i + 1) old_size old_elements this \<noteq> None" by simp
        then show ?thesis using True Inr None by (subst ReHash_loop_unfold) simp
      next
        case (Some cell)
        show ?thesis
        proof (cases "GetCellState cell = EMPTY")
          case empty: True
          show ?thesis
          proof (cases "Set old_elements i None")
            case (Inl e)
            then show ?thesis using True Inr Some empty by (subst ReHash_loop_unfold) simp
          next
            case old': (Inr old_elements')
            from "1.IH"(2)[OF True Inr Some empty old' "1.prems"(1)] "1.prems"(2,3) have
              "ReHash_loop ins' (i + 1) old_size old_elements' this \<noteq> None" by simp
            then show ?thesis using True Inr Some empty old' by (subst ReHash_loop_unfold) simp
          qed
        next
          case full: False
          from step obtain r where r: "ins' this (GetKey cell) (GetValue cell) = Some r"
            "size_ht (state_of r) = size_ht this"
            "total_elements (state_of r) \<le> total_elements this + 1" by blast
          show ?thesis
          proof (cases r)
            case (Threw e this')
            then show ?thesis using True Inr Some full r(1) by (subst ReHash_loop_unfold) simp
          next
            case ret: (Returned this')
            from "1.IH"(3)[OF True Inr Some full r(1) ret "1.prems"(1)] r(2,3) ret "1.prems"(2,3) have
              "ReHash_loop ins' (i + 1) old_size old_elements this' \<noteq> None" by simp
            then show ?thesis using True Inr Some full r(1) ret by (subst ReHash_loop_unfold) simp
          qed
        qed
      qed
    qed
  qed
qed


lemma ReHash_loop_returns:
  "always_returns ins \<Longrightarrow> keeps_size_ok ins \<Longrightarrow> size_ok this \<Longrightarrow>
   ReHash_loop ins i old_size old_elements this \<noteq> None"
proof (induction ins i old_size old_elements this rule: ReHash_loop.induct)
  case (1 ins i old_size old_elements this)
  have step: "\<exists>r. ins this key value = Some r \<and> size_ok (state_of r)" for key "value"
    using "1.prems" unfolding always_returns_def keeps_size_ok_def by (metis not_Some_eq)
  show ?case
    apply (subst ReHash_loop_unfold)
    using "1.IH" "1.prems" step
    by (fastforce split: sum.splits option.splits outcome.splits)
qed

lemma merge_loop_returns:
  "always_returns ins \<Longrightarrow> keeps_size_ok ins \<Longrightarrow> size_ok this \<Longrightarrow>
   merge_loop ins i ht this \<noteq> None"
proof (induction ins i ht this rule: merge_loop.induct)
  case (1 ins i ht this)
  have step: "\<exists>r. ins this key value = Some r \<and> size_ok (state_of r)" for key "value"
    using "1.prems" unfolding always_returns_def keeps_size_ok_def by (metis not_Some_eq)
  show ?case
    apply (subst merge_loop.simps)
    using "1.IH" "1.prems" step
    by (fastforce split: sum.splits option.splits outcome.splits)
qed


lemma ReHash_size_UP:
  "ReHash_size this UP = Some s \<Longrightarrow> s = FindNextPrime (size_ht this * 2)"
  unfolding ReHash_size_def floor_double by (auto split: if_splits)

lemma small_step_Insert: "small_step (\<lambda>this' key value. Insert n raw this' key value)"
  unfolding small_step_def by (intro allI impI Insert_without_rebuild)

lemma ReHash_1_UP_returns:
  assumes "size_ok this"
  shows "ReHash (Suc 0) raw UP this \<noteq> None"
proof (cases "ReHash_size this UP")
  case None
  then show ?thesis by simp
next
  case (Some s)
  let ?T = "this\<lparr>size_ht := s, total_elements := 0, elements := new_InitializedArray raw s None\<rparr>"
  have ge: "7 \<le> size_ht this" using assms by (simp add: size_ok_def INIT_SIZE_def)
  then have "1 \<le> size_ht this * 2" by simp
  from FindNextPrime_is_prime(2)[OF this] have "size_ht this * 2 < s"
    using ReHash_size_UP[OF Some] by simp
  then have "4 * size_ht this < 3 * size_ht ?T" using ge by simp
  moreover have "total_elements ?T \<le> 0" by simp
  ultimately have "ReHash_loop (\<lambda>this' key value. Insert 0 raw this' key value) 0 (size_ht this)
      (elements this) ?T \<noteq> None"
    using small_step_Insert by (intro ReHash_loop_returns_small)
  then show ?thesis using Some by simp
qed

lemma ReHash_Suc_returns:
  assumes "always_returns (\<lambda>this' key value. Insert n raw this' key value)" "size_ok this"
  shows "ReHash (Suc n) raw dir this \<noteq> None"
proof (cases "ReHash_size this dir")
  case None
  then show ?thesis by simp
next
  case (Some s)
  let ?T = "this\<lparr>size_ht := s, total_elements := 0, elements := new_InitializedArray raw s None\<rparr>"
  have "size_ok ?T" using ReHash_size_ok[OF assms(2) Some] by (simp add: size_ok_def)
  then have "ReHash_loop (\<lambda>this' key value. Insert n raw this' key value) 0 (size_ht this)
      (elements this) ?T \<noteq> None"
    using assms(1) Insert_keeps_size_ok by (intro ReHash_loop_returns)
  then show ?thesis using Some by simp
qed

lemma Insert_None:
  assumes "Insert n raw this key value = None"
  shows "\<exists>this'. size_ht this' = size_ht this \<and> ReHash n raw UP this' = None"
proof -
  have *: "ReHash n raw UP this' = None \<Longrightarrow> size_ht this' = size_ht this \<Longrightarrow> ?thesis" for this'
    by blast
  from assms show ?thesis
    apply (subst (asm) Insert.simps)
    by (auto split: if_splits sum.splits option.splits prod.splits simp: Let_def elim!: *)
qed

lemma Remove_None:
  assumes "Remove n raw this key = None"
  shows "\<exists>this'. size_ht this' = size_ht this \<and> ReHash n raw DOWN this' = None"
proof -
  have *: "ReHash n raw DOWN this' = None \<Longrightarrow> size_ht this' = size_ht this \<Longrightarrow> ?thesis" for this'
    by blast
  from assms show ?thesis
    unfolding Remove_def
    by (auto split: if_splits sum.splits option.splits elim!: *)
qed

lemma Insert_returns: "size_ok this \<Longrightarrow> Insert (Suc n) raw this key value \<noteq> None"
proof (induction n arbitrary: this key "value")
  case 0
  show ?case
  proof
    assume "Insert (Suc 0) raw this key value = None"
    from Insert_None[OF this] obtain this' where
      t: "size_ht this' = size_ht this" "ReHash (Suc 0) raw UP this' = None" by blast
    from t(1) "0.prems" have "size_ok this'" by (rule size_ok_cong)
    then have "ReHash (Suc 0) raw UP this' \<noteq> None" by (rule ReHash_1_UP_returns)
    from this t(2) show False by (rule notE)
  qed
next
  case (Suc n)
  have all: "always_returns (\<lambda>this' key value. Insert (Suc n) raw this' key value)"
    unfolding always_returns_def using Suc.IH by blast
  show ?case
  proof
    assume "Insert (Suc (Suc n)) raw this key value = None"
    from Insert_None[OF this] obtain this' where
      t: "size_ht this' = size_ht this" "ReHash (Suc (Suc n)) raw UP this' = None" by blast
    from t(1) Suc.prems have "size_ok this'" by (rule size_ok_cong)
    with all have "ReHash (Suc (Suc n)) raw UP this' \<noteq> None" by (rule ReHash_Suc_returns)
    from this t(2) show False by (rule notE)
  qed
qed

lemma Insert_always_returns: "always_returns (\<lambda>this' key value. Insert (Suc n) raw this' key value)"
  unfolding always_returns_def by (intro allI impI Insert_returns)

lemma Remove_returns:
  assumes "size_ok this"
  shows "Remove (Suc (Suc n)) raw this key \<noteq> None"
proof
  assume "Remove (Suc (Suc n)) raw this key = None"
  from Remove_None[OF this] obtain this' where
    t: "size_ht this' = size_ht this" "ReHash (Suc (Suc n)) raw DOWN this' = None" by blast
  from t(1) assms have "size_ok this'" by (rule size_ok_cong)
  with Insert_always_returns have "ReHash (Suc (Suc n)) raw DOWN this' \<noteq> None"
    by (rule ReHash_Suc_returns)
  from this t(2) show False by (rule notE)
qed

lemma merge_returns:
  assumes "size_ok ht1" "size_ok ht2"
  shows "merge_HashTable (Suc n) raw ht1 ht2 \<noteq> None"
proof -
  let ?s = "FindNextPrime (2 * (size_ht ht1 + size_ht ht2))"
  let ?T = "\<lparr>elements = new_InitializedArray raw ?s None, size_ht = ?s, total_elements = 0\<rparr>"
  let ?ins = "\<lambda>this' key value. Insert (Suc n) raw this' key value"
  have "1 \<le> 2 * (size_ht ht1 + size_ht ht2)"
    using assms by (simp add: size_ok_def INIT_SIZE_def)
  from FindNextPrime_is_prime[OF this] have ok: "size_ok ?T"
    using assms by (simp add: size_ok_def INIT_SIZE_def)
  note a = Insert_always_returns[of n raw] and k = Insert_keeps_size_ok[of "Suc n" raw]
  from merge_loop_returns[OF a k ok] obtain r1 where r1: "merge_loop ?ins 0 ht1 ?T = Some r1"
    by blast
  have ok1: "size_ok (state_of r1)" using merge_loop_size_ok[OF k ok r1] .
  show ?thesis
  proof (cases r1)
    case (Threw e this')
    then show ?thesis using r1 by (simp add: merge_HashTable_def Let_def)
  next
    case (Returned this')
    then have "size_ok this'" using ok1 by simp
    from merge_loop_returns[OF a k this] show ?thesis
      using r1 Returned by (simp add: merge_HashTable_def Let_def)
  qed
qed


section \<open>The probe sequence above the initial size\<close>

text \<open>
  For a key that is not negative and a prime size greater than 7, the step
  \<open>1 + key % CONST_C\<close> lies between 1 and 7 and is coprime to the size, so the probes
  \<^verbatim>\<open>Hash(key, k)\<close> for \<open>k = 0 .. size - 1\<close> are pairwise distinct.
\<close>

lemma cpp_mod_nonneg: "0 \<le> a \<Longrightarrow> 0 < b \<Longrightarrow> cpp_mod a b = a mod b"
  by (simp add: cpp_mod_def sgn_if)

lemma is_prime_coprime:
  assumes "is_prime p" "0 < s" "s < p"
  shows "coprime p s"
proof -
  let ?g = "gcd p s"
  have "?g \<noteq> 0" using assms(2) by simp
  moreover have "0 \<le> ?g" by simp
  ultimately have g0: "0 < ?g" by linarith
  have "?g dvd s" by simp
  then have "?g \<le> s" using assms(2) by (rule zdvd_imp_le)
  then have gp: "?g < p" using assms(3) by simp
  have "?g = 1"
  proof (rule ccontr)
    assume "?g \<noteq> 1"
    then have "2 \<le> ?g" using g0 by linarith
    then have "?g \<in> {2..<p}" using gp by simp
    moreover have "\<forall>d\<in>{2..<p}. \<not> d dvd p" using assms(1) by (simp add: is_prime_def)
    ultimately have "\<not> ?g dvd p" by blast
    then show False by simp
  qed
  then show ?thesis by (simp only: coprime_iff_gcd_eq_1)
qed

lemma Hash_nonneg:
  assumes "0 \<le> key" "0 \<le> k" "0 < size_ht this"
  shows "Hash this key k = (key mod size_ht this + k * (1 + key mod 7)) mod size_ht this"
proof -
  have 1: "cpp_mod key (size_ht this) = key mod size_ht this"
    using assms by (simp add: cpp_mod_nonneg)
  have 2: "cpp_mod key CONST_C = key mod 7"
    using assms by (simp add: cpp_mod_nonneg CONST_C_def)
  have "0 \<le> key mod size_ht this + k * (1 + key mod 7)" using assms by simp
  then show ?thesis unfolding Hash_def 1 2 using assms(3) by (rule cpp_mod_nonneg)
qed

lemma Hash_probes_distinct:
  assumes p: "is_prime (size_ht this)" "7 < size_ht this" and key: "0 \<le> key"
    and k1: "0 \<le> k1" "k1 < size_ht this" and k2: "0 \<le> k2" "k2 < size_ht this"
    and eq: "Hash this key k1 = Hash this key k2"
  shows "k1 = k2"
proof -
  let ?p = "size_ht this"
  let ?s = "1 + key mod 7"
  let ?a = "key mod ?p"
  have s: "0 < ?s" "?s < ?p" using p(2) by simp_all
  have p0: "0 < ?p" using p(2) by simp
  have "(?a + k1 * ?s) mod ?p = (?a + k2 * ?s) mod ?p"
    using eq unfolding Hash_nonneg[OF key k1(1) p0] Hash_nonneg[OF key k2(1) p0] .
  then have "?p dvd (?a + k1 * ?s) - (?a + k2 * ?s)" by (simp add: mod_eq_dvd_iff)
  moreover have "(?a + k1 * ?s) - (?a + k2 * ?s) = (k1 - k2) * ?s" by (simp add: algebra_simps)
  ultimately have "?p dvd (k1 - k2) * ?s" by simp
  moreover have "coprime ?p ?s" using p(1) s by (rule is_prime_coprime)
  ultimately have "?p dvd k1 - k2" by (simp add: coprime_dvd_mult_left_iff)
  moreover have "\<bar>k1 - k2\<bar> < ?p" using k1 k2 by simp
  ultimately show ?thesis using zdvd_not_zless[of "\<bar>k1 - k2\<bar>" ?p]
    by (cases "k1 = k2") simp_all
qed

section \<open>Key 0 and keys below 0\<close>

text \<open>
  Where the loop of \<^verbatim>\<open>FindKey\<close> ends on a cell within the probe limit, the key of the
  cell is the key looked for; so for key 0 the last test of \<^verbatim>\<open>FindKey\<close> always
  answers \<open>-1\<close>, and \<^verbatim>\<open>Find(0)\<close> returns a record on no table at all. A key below 0
  that the size does not divide hashes to a negative index, and the array throws.
\<close>

lemma FindKey_loop_match:
  "FindKey_loop this key k hash elem = Inr (k', hash', Some cell) \<Longrightarrow> k' < size_ht this
   \<Longrightarrow> GetKey cell = key"
proof (induction this key k hash elem rule: FindKey_loop.induct)
  case (1 this key k hash elem)
  from "1.prems"(1) show ?case
    apply (subst (asm) FindKey_loop.simps)
    using "1.IH" "1.prems"(2)
    by (auto split: option.splits if_splits sum.splits)
qed

lemma FindKey_zero: "FindKey this 0 = Inr h \<Longrightarrow> h = - 1"
  unfolding FindKey_def
  by (auto split: sum.splits option.splits if_splits prod.splits dest: FindKey_loop_match)

lemma Find_zero: "Find this 0 \<noteq> Inr (Some cell)"
  unfolding Find_def
  by (auto split: sum.splits option.splits if_splits dest: FindKey_zero)

lemma Insert_negative_key_throws:
  "Insert n raw (new_HashTable raw) (- 1) value = Some (Threw out_of_range (new_HashTable raw))"
proof -
  have "Hash (new_HashTable raw) (- 1) 0 = - 1"
    by (simp add: Hash_def cpp_mod_def new_HashTable_def INIT_SIZE_def)
  then have "FindKey (new_HashTable raw) (- 1) = Inl out_of_range"
    by (simp add: FindKey_def Get_def IsInitialized_def)
  then show ?thesis by (simp add: Insert.simps)
qed

section \<open>Claims about the table\<close>

text \<open>
  In the concrete runs below the freshly allocated buffers hold \<open>null_memory\<close>, every
  call returns (\<open>run\<close> yields \<open>Some\<close>), and the first argument of \<open>run\<close> is the
  number of nested rebuilds allowed.
\<close>

text \<open>
  C1. Round trip, at key 0: \<^verbatim>\<open>Insert(0, v)\<close> on an empty table stores the record in slot 0
  and returns, and \<^verbatim>\<open>Find(0)\<close> then returns \<^verbatim>\<open>NULL\<close>, for every value, every
  content of the fresh buffers and every bound on rebuilds; moreover \<^verbatim>\<open>Find(0)\<close>
  returns a record on no table \<open>that\<close>. \<^verbatim>\<open>FindKey\<close> ends with
  \<^verbatim>\<open>if (elem->GetKey() == EMPTY) return -1\<close>, which compares the key (not the state of
  the cell) with the enumerator \<^verbatim>\<open>EMPTY\<close>, that is with 0.
\<close>

theorem Insert_zero_then_Find:
  "(\<exists>this. Insert n raw (new_HashTable raw) 0 value = Some (Returned this)
      \<and> Get (elements this) 0 = Inr (Some (new_HTableCell 0 value))
      \<and> Find this 0 = Inr None)
   \<and> Find that 0 \<noteq> Inr (Some cell)"
proof -
  let ?T = "\<lparr>elements = new_InitializedArray raw 7 None, size_ht = 7, total_elements = 0\<rparr>"
  have T: "new_HashTable raw = ?T" by (simp add: new_HashTable_def INIT_SIZE_def)
  let ?cell = "new_HTableCell 0 value"
  let ?els = "\<lparr>values_arr = (raw_values raw)(0 := Some ?cell),
               short_cuts = (raw_short_cuts raw)(0 := 0),
               init_indexes = (raw_init_indexes raw)(0 := 0),
               top_arr = 1, length_arr = 7, def_arr = None\<rparr>"
  let ?T1 = "\<lparr>elements = ?els, size_ht = 7, total_elements = 1\<rparr>"
  have h: "Hash ?T 0 0 = 0" "Hash ?T1 0 0 = 0"
    by (simp_all add: Hash_def cpp_mod_def)
  have g: "Get (elements ?T) 0 = Inr None"
    by (simp add: Get_def IsInitialized_def new_InitializedArray_def)
  have fk: "FindKey ?T 0 = Inr (- 1)"
    using h g by (simp add: FindKey_def FindKey_loop.simps)
  have s: "Set (elements ?T) 0 (Some ?cell) = Inr ?els"
    by (simp add: Set_def IsInitialized_def new_InitializedArray_def)
  have rs: "ReHash_size ?T1 UP = None"
    by (simp add: ReHash_size_def MAX_RATIO_def)
  have ins: "Insert n raw ?T 0 value = Some (Returned ?T1)"
    using fk h g s by (simp add: Insert.simps Insert_loop.simps ReHash_no_rebuild[OF rs])
  have g': "Get (elements ?T1) 0 = Inr (Some ?cell)"
    by (simp add: Get_def IsInitialized_def)
  have "FindKey ?T1 0 = Inr (- 1)"
    using h g' by (simp add: FindKey_def FindKey_loop.simps new_HTableCell_def)
  then have "Find ?T1 0 = Inr None" by (simp add: Find_def)
  then have "\<exists>this. Insert n raw (new_HashTable raw) 0 value = Some (Returned this)
      \<and> Get (elements this) 0 = Inr (Some (new_HTableCell 0 value))
      \<and> Find this 0 = Inr None"
    using ins g' unfolding T by blast
  then show ?thesis using Find_zero by blast
qed

text \<open>
  C3. The step of the double hashing at the initial size: for key 6 the step
  \<open>1 + 6 % CONST_C\<close> is 7, a multiple of \<open>INIT_SIZE = 7\<close>, and all seven probes
  \<^verbatim>\<open>Hash(6, k)\<close>, \<open>k = 0 .. 6\<close>, of the empty table are slot 6.
\<close>

theorem step_is_multiple_of_initial_size:
  "cpp_mod (1 + cpp_mod 6 CONST_C) INIT_SIZE = 0
   \<and> map (Hash (new_HashTable null_memory :: string HashTable) 6) [0, 1, 2, 3, 4, 5, 6] = [6, 6, 6, 6, 6, 6, 6]"
  by code_simp

text \<open>
  C4. The count of live elements: after \<^verbatim>\<open>Insert(1, "a")\<close>, \<^verbatim>\<open>Remove(1)\<close>,
  \<^verbatim>\<open>Insert(1, "b")\<close> one slot is \<^verbatim>\<open>FULL\<close> and \<^verbatim>\<open>GetTotalElements()\<close> is 0; the
  same holds when the third call inserts key 8, which probes slot 1 first; and a further
  \<^verbatim>\<open>Remove(1)\<close> after the first run makes \<^verbatim>\<open>GetTotalElements()\<close> negative.
\<close>

theorem total_elements_differs_from_FULL_count:
  "map_option (\<lambda>this. (GetTotalElements this, FULL_slots this))
     (run 1 null_memory (new_HashTable null_memory) [InsertCall 1 ''a'', RemoveCall 1, InsertCall 1 ''b''])
     = Some (0, [1])
   \<and> map_option (\<lambda>this. (GetTotalElements this, FULL_slots this))
     (run 1 null_memory (new_HashTable null_memory) [InsertCall 1 ''a'', RemoveCall 1, InsertCall 8 ''b''])
     = Some (0, [1])
   \<and> map_option (\<lambda>this. (GetTotalElements this, FULL_slots this))
     (run 1 null_memory (new_HashTable null_memory)
        [InsertCall 1 ''a'', RemoveCall 1, InsertCall 1 ''b'', RemoveCall 1])
     = Some (- 1, [])"
  by code_simp

text \<open>
  C5. Lookup of a removed key: after \<^verbatim>\<open>Insert(1, "a")\<close> and \<^verbatim>\<open>Remove(1)\<close> no slot is
  \<^verbatim>\<open>FULL\<close>, yet \<^verbatim>\<open>Find(1)\<close> returns the removed cell (state \<^verbatim>\<open>EMPTY\<close>) and
  \<^verbatim>\<open>Exists(1)\<close> returns true.
\<close>

theorem removed_key_is_still_found:
  "map_option (\<lambda>this. (Find this 1, Exists this 1, FULL_slots this))
     (run 1 null_memory (new_HashTable null_memory) [InsertCall 1 ''a'', RemoveCall 1])
     = Some (Inr (Some \<lparr>GetKey = 1, GetValue = ''a'', GetCellState = EMPTY\<rparr>), Inr True, [])"
  by code_simp

text \<open>
  C6. \<^verbatim>\<open>Exists\<close> at slot 0: after \<^verbatim>\<open>Insert(7, "a")\<close> the record of key 7 is live in
  slot 0 and \<^verbatim>\<open>Find(7)\<close> returns it, but \<^verbatim>\<open>Exists(7)\<close> returns false
  (\<^verbatim>\<open>found_key > 0\<close>).
\<close>

theorem Exists_false_at_slot_0:
  "map_option (\<lambda>this. (Exists this 7, Find this 7, FULL_slots this))
     (run 1 null_memory (new_HashTable null_memory) [InsertCall 7 ''a''])
     = Some (Inr False, Inr (Some \<lparr>GetKey = 7, GetValue = ''a'', GetCellState = FULL\<rparr>), [0])"
  by code_simp

text \<open>
  C10. Frame property of \<^verbatim>\<open>Insert\<close>: after \<^verbatim>\<open>Insert(6, "a")\<close> key 6 is found;
  \<^verbatim>\<open>Insert(13, "b")\<close> then overwrites its record, and \<^verbatim>\<open>Find(6)\<close> returns
  \<^verbatim>\<open>NULL\<close>. (Both keys probe slot 6 only, see C3.)
\<close>

theorem Insert_overwrites_other_key:
  "map_option (\<lambda>this. Find this 6)
     (run 1 null_memory (new_HashTable null_memory) [InsertCall 6 ''a''])
     = Some (Inr (Some \<lparr>GetKey = 6, GetValue = ''a'', GetCellState = FULL\<rparr>))
   \<and> map_option (\<lambda>this. (Find this 6, Find this 13))
     (run 1 null_memory (new_HashTable null_memory) [InsertCall 6 ''a'', InsertCall 13 ''b''])
     = Some (Inr None, Inr (Some \<lparr>GetKey = 13, GetValue = ''b'', GetCellState = FULL\<rparr>))"
  by code_simp

text \<open>
  C8, as stated: after the inserts of keys 1 to 6 the capacity is not 11.
\<close>

theorem resize_scenario_size_11_counterexample:
  "map_option GetSize (run 1 null_memory (new_HashTable null_memory) keys_1_to_6) \<noteq> Some 11"
  by code_simp

text \<open>
  C8, amended. Starting from the empty table of capacity 7: the inserts of keys 1 to 5
  (values "a" to "e") end without any rebuild, with capacity 7 and 5 elements; the insert
  of key 6 rebuilds the table with capacity 17, the least prime greater than 14, and
  \<^verbatim>\<open>Find\<close> returns each of the six records afterwards.
\<close>

theorem resize_scenario:
  "map_option (\<lambda>this. (GetSize this, GetTotalElements this))
     (run 0 null_memory (new_HashTable null_memory) keys_1_to_5) = Some (7, 5)
   \<and> map_option (\<lambda>this. (GetSize this, GetTotalElements this, map (Find this) [1, 2, 3, 4, 5, 6]))
     (run 1 null_memory (new_HashTable null_memory) keys_1_to_6)
     = Some (17, 6,
         [Inr (Some \<lparr>GetKey = 1, GetValue = ''a'', GetCellState = FULL\<rparr>),
          Inr (Some \<lparr>GetKey = 2, GetValue = ''b'', GetCellState = FULL\<rparr>),
          Inr (Some \<lparr>GetKey = 3, GetValue = ''c'', GetCellState = FULL\<rparr>),
          Inr (Some \<lparr>GetKey = 4, GetValue = ''d'', GetCellState = FULL\<rparr>),
          Inr (Some \<lparr>GetKey = 5, GetValue = ''e'', GetCellState = FULL\<rparr>),
          Inr (Some \<lparr>GetKey = 6, GetValue = ''f'', GetCellState = FULL\<rparr>)])
   \<and> FindNextPrime 14 = 17"
  by code_simp

text \<open>
  C7. Capacity invariant: the size of every table that can arise (by construction,
  \<^verbatim>\<open>Insert\<close>, \<^verbatim>\<open>Remove\<close> and merging, rebuilds included) is a prime and at least
  \<open>INIT_SIZE\<close>; \<^verbatim>\<open>IsPrime\<close> is right on every candidate from 5 on (the candidates it
  is given are greater than 5); and on such a table \<^verbatim>\<open>Insert\<close> returns as soon as
  one rebuild is allowed, \<^verbatim>\<open>Remove\<close> as soon as two nested rebuilds are allowed.
\<close>

theorem capacity_is_prime:
  assumes "reachable this"
  shows "is_prime (GetSize this) \<and> INIT_SIZE \<le> GetSize this
         \<and> (\<forall>c\<ge>5. IsPrime c = is_prime c)
         \<and> Insert (Suc n) raw this key value \<noteq> None
         \<and> Remove (Suc (Suc n)) raw this key' \<noteq> None"
proof -
  have ok: "size_ok this" using assms by (rule reachable_size_ok)
  have "IsPrime c = is_prime c" if "5 \<le> c" for c
    using that IsPrime_sound[of c] IsPrime_complete[of c] by auto
  moreover have "Insert (Suc n) raw this key value \<noteq> None"
    using ok by (rule Insert_returns)
  moreover have "Remove (Suc (Suc n)) raw this key' \<noteq> None"
    using ok by (rule Remove_returns)
  ultimately show ?thesis using ok by (simp add: size_ok_def GetSize_def)
qed

lemma shrink_run:
  "map_option GetSize (run 1 null_memory (new_HashTable null_memory) keys_1_to_6) = Some 17
   \<and> map_option GetSize
        (run 2 null_memory (new_HashTable null_memory) (keys_1_to_6 @ [RemoveCall 1, RemoveCall 2]))
      = Some 11"
  by code_simp

lemma merge_run:
  "map_option (\<lambda>r. (has_returned r, GetSize (state_of r), GetTotalElements (state_of r),
       map_sum id (map_option GetValue) (Find (state_of r) 1),
       map_sum id (map_option GetValue) (Find (state_of r) 8))) merge_example
   = Some (True, 29, 2, Inr (Some ''y''), Inr (Some ''z''))"
  by code_simp

theorem capacity_is_prime_witness:
  "map_option (\<lambda>this. GetSize this = 11 \<and> is_prime (GetSize this) \<and> INIT_SIZE \<le> GetSize this)
     (run 2 null_memory (new_HashTable null_memory) (keys_1_to_6 @ [RemoveCall 1, RemoveCall 2]))
   = Some True
   \<and> map_option (\<lambda>r. has_returned r \<and> GetSize (state_of r) = 29 \<and> is_prime (GetSize (state_of r)))
       merge_example = Some True"
proof -
  from shrink_run obtain this where
    r: "run 2 null_memory (new_HashTable null_memory) (keys_1_to_6 @ [RemoveCall 1, RemoveCall 2])
          = Some this" and s: "GetSize this = 11"
    by auto
  have "reachable this" using reachable.construct r by (rule reachable_run)
  from capacity_is_prime[OF this] have 1: "is_prime (GetSize this) \<and> INIT_SIZE \<le> GetSize this"
    by simp
  from merge_run obtain m where
    m: "merge_example = Some m" "has_returned m" "GetSize (state_of m) = 29"
    by auto
  from m(1) obtain ht1 ht2 where
    h: "table_x = Some ht1" "table_yz = Some ht2"
       "merge_HashTable 1 null_memory ht1 ht2 = Some m"
    unfolding merge_example_def by (auto split: option.splits)
  have "m = Returned (state_of m)" using m(2) by (cases m) simp_all
  then have mg: "merge_HashTable 1 null_memory ht1 ht2 = Some (Returned (state_of m))"
    using h(3) by simp
  have "reachable ht1"
    using reachable.construct h(1)[unfolded table_x_def] by (rule reachable_run)
  moreover have "reachable ht2"
    using reachable.construct h(2)[unfolded table_yz_def] by (rule reachable_run)
  ultimately have "reachable (state_of m)" using mg by (rule reachable.merge)
  from capacity_is_prime[OF this] have 2: "is_prime (GetSize (state_of m))"
    by simp
  show ?thesis using r s 1 m 2 by auto
qed

end
